theory Spec2Isabelle
  imports Complex_Main "HOL-Library.AList"
begin

section \<open>Python strings, slices and \<open>str.rfind\<close>\<close>

text \<open>
  A Python \<open>str\<close> is a sequence of Unicode code points and \<open>len\<close> counts code points,
  so the text handed to the chunker is a list of code points.
\<close>

type_synonym pystr = "nat list"

text \<open>The characters \<open>str.strip()\<close> removes: those for which \<open>str.isspace\<close> holds.\<close>

definition is_space :: "nat \<Rightarrow> bool" where
  "is_space c \<longleftrightarrow>
     (9 \<le> c \<and> c \<le> 13) \<or> (28 \<le> c \<and> c \<le> 32) \<or> c = 133 \<or> c = 160 \<or> c = 5760 \<or>
     (8192 \<le> c \<and> c \<le> 8202) \<or> c = 8232 \<or> c = 8233 \<or> c = 8239 \<or> c = 8287 \<or> c = 12288"

definition strip :: "pystr \<Rightarrow> pystr" where
  "strip s = rev (dropWhile is_space (rev (dropWhile is_space s)))"

text \<open>
  Slice indices: a negative index counts from the end, and the result is clamped to
  \<open>0 .. len\<close>.
\<close>

definition adjust_index :: "nat \<Rightarrow> int \<Rightarrow> nat" where
  "adjust_index n i = (if i < 0 then nat (max 0 (i + int n)) else min (nat i) n)"

definition py_slice :: "'a list \<Rightarrow> int \<Rightarrow> int \<Rightarrow> 'a list" where
  "py_slice text start end =
     (let s = adjust_index (length text) start; e = adjust_index (length text) end
      in take (e - s) (drop s text))"

definition occurs_at :: "'a list \<Rightarrow> 'a list \<Rightarrow> nat \<Rightarrow> bool" where
  "occurs_at text sub i \<longleftrightarrow> take (length sub) (drop i text) = sub"

text \<open>
  \<open>text.rfind(sub, start, end)\<close>: the highest index \<open>i\<close> with \<open>sub\<close> at \<open>i\<close> inside
  the slice \<open>text[start:end]\<close>, or \<open>-1\<close>.
\<close>

definition rfind :: "'a list \<Rightarrow> 'a list \<Rightarrow> int \<Rightarrow> int \<Rightarrow> int" where
  "rfind text sub start end =
     (let s = adjust_index (length text) start; e = adjust_index (length text) end
      in case filter (occurs_at text sub) (rev [s ..< Suc e - length sub]) of
           [] \<Rightarrow> - 1
         | i # _ \<Rightarrow> int i)"

section \<open>The chunker: \<open>DocumentProcessor._chunk_text\<close>\<close>

record processor =
  chunk_size :: int
  chunk_overlap :: int

text \<open>The end of the chunk that starts at \<open>start\<close> (lines 173 to 195 of the loop body).\<close>

definition chunk_end :: "processor \<Rightarrow> pystr \<Rightarrow> int \<Rightarrow> int" where
  "chunk_end p text start =
     (let text_length = int (length text);
          end = min (start + chunk_size p) text_length
      in if end < text_length then
           (let paragraph_break = rfind text [10, 10] start end
            in if paragraph_break \<noteq> - 1 \<and> paragraph_break > start + chunk_size p div 2
               then paragraph_break + 2
               else
                 (let line_break = rfind text [10] start end
                  in if line_break \<noteq> - 1 \<and> line_break > start + chunk_size p div 2
                     then line_break + 1
                     else
                       (let sentence_end = rfind text [46, 32] start end
                        in if sentence_end \<noteq> - 1 \<and> sentence_end > start + chunk_size p div 2
                           then sentence_end + 2
                           else
                             (let space = rfind text [32] start end
                              in if space \<noteq> - 1 \<and> space > start + chunk_size p div 2
                                 then space + 1
                                 else end))))
         else end)"

text \<open>
  The \<open>while\<close> loop. It may run forever, so it is a partial function: \<open>None\<close> is
  "does not return".
\<close>

partial_function (option) chunk_loop ::
  "processor \<Rightarrow> pystr \<Rightarrow> int \<Rightarrow> pystr list \<Rightarrow> pystr list option" where
  "chunk_loop p text start chunks =
     (if start < int (length text) then
        (let end = chunk_end p text start;
             chunks' = chunks @ [strip (py_slice text start end)];
             start' = end - chunk_overlap p
         in if start' \<ge> end then Some chunks' else chunk_loop p text start' chunks')
      else Some chunks)"

definition chunk_text :: "processor \<Rightarrow> pystr \<Rightarrow> pystr list option" where
  "chunk_text p text = (if text = [] then Some [] else chunk_loop p text 0 [])"

text \<open>
  The same loop cut off after \<open>n\<close> iterations: the cursor and the chunks emitted so far,
  and whether the loop has been left.
\<close>

fun chunk_trace :: "nat \<Rightarrow> processor \<Rightarrow> pystr \<Rightarrow> int \<Rightarrow> pystr list \<Rightarrow> bool \<times> int \<times> pystr list" where
  "chunk_trace 0 p text start chunks = (False, start, chunks)"
| "chunk_trace (Suc n) p text start chunks =
     (if start < int (length text) then
        (let end = chunk_end p text start;
             chunks' = chunks @ [strip (py_slice text start end)];
             start' = end - chunk_overlap p
         in if start' \<ge> end then (True, start', chunks') else chunk_trace n p text start' chunks')
      else (True, start, chunks))"

section \<open>Python values\<close>

text \<open>
  The records handed to the store are Python dictionaries with string keys. A dictionary
  is an association list in insertion order with distinct keys: assignment to a present
  key replaces its value in place, assignment to a new key appends at the end.
  Floating-point numbers are modelled as exact reals: rounding and overflow of
  \<open>float32\<close> are outside the model.
\<close>

datatype pyval =
    PStr string
  | PInt int
  | PFloat real
  | PVec "real list"
  | PDict "(string \<times> pyval) list"

type_synonym pydict = "(string \<times> pyval) list"

datatype pyerr =
    KeyError | TypeError | ValueError | IndexError | AssertionError
  | FileNotFoundError | RuntimeError | UnpicklingError

definition getitem :: "pydict \<Rightarrow> string \<Rightarrow> pyerr + pyval" where
  "getitem dct k = (case map_of dct k of None \<Rightarrow> Inl KeyError | Some v \<Rightarrow> Inr v)"

definition setitem :: "string \<Rightarrow> 'v \<Rightarrow> (string \<times> 'v) list \<Rightarrow> (string \<times> 'v) list" where
  "setitem k v dct = AList.update k v dct"

text \<open>\<open>v[k]\<close> for a string key \<open>k\<close>.\<close>

fun subscript :: "pyval \<Rightarrow> string \<Rightarrow> pyerr + pyval" where
  "subscript (PDict dct) k = getitem dct k"
| "subscript (PVec _) k = Inl IndexError"
| "subscript _ k = Inl TypeError"

text \<open>\<open>xs[i]\<close> on a list of length \<open>n\<close>: the position read, or \<open>IndexError\<close>.\<close>

definition list_index :: "nat \<Rightarrow> int \<Rightarrow> pyerr + nat" where
  "list_index n i =
     (let j = (if i < 0 then i + int n else i)
      in if 0 \<le> j \<and> j < int n then Inr (nat j) else Inl IndexError)"

fun digits :: "nat \<Rightarrow> string" where
  "digits n =
     (if n < 10 then [''0123456789'' ! n]
      else digits (n div 10) @ [''0123456789'' ! (n mod 10)])"

definition str_int :: "int \<Rightarrow> string" where
  "str_int i = (if i < 0 then CHR ''-'' # digits (nat (- i)) else digits (nat i))"

text \<open>
  \<open>f"{v}"\<close>: a string is copied, an integer is written in decimal. The rendering of a
  float, an array or a dictionary is left to the parameter \<open>fmt\<close>.
\<close>

fun py_format :: "(pyval \<Rightarrow> string) \<Rightarrow> pyval \<Rightarrow> string" where
  "py_format fmt (PStr s) = s"
| "py_format fmt (PInt i) = str_int i"
| "py_format fmt v = fmt v"

section \<open>The vector index\<close>

text \<open>
  Modelled from the spec: the vector index is the class \<open>IndexFlatL2\<close> of the library
  faiss, which is not part of the repository. Following the spec it is an exact
  nearest-neighbour structure over vectors of one fixed dimension under the squared
  Euclidean distance: \<open>add\<close> appends a batch of vectors in order and fails fast on a
  wrong dimension; \<open>search\<close> returns the \<open>k\<close> nearest positions with their raw squared
  distances, best first, and reports the positions without a match as \<open>-1\<close>.
  Vectors and distances are exact reals here: the rounding, the overflow to infinity and
  the NaN of the library's \<open>float32\<close> arithmetic are outside the model, and no claim
  below is settled through the value of a distance or of a score.
\<close>

record faiss_index =
  dim :: nat
  xb :: "real list list"

definition IndexFlatL2 :: "nat \<Rightarrow> faiss_index" where
  "IndexFlatL2 n = \<lparr>dim = n, xb = []\<rparr>"

definition ntotal :: "faiss_index \<Rightarrow> nat" where
  "ntotal ix = length (xb ix)"

definition index_add :: "faiss_index \<Rightarrow> real list list \<Rightarrow> pyerr + faiss_index" where
  "index_add ix x =
     (if list_all (\<lambda>v. length v = dim ix) x then Inr (ix\<lparr>xb := xb ix @ x\<rparr>)
      else Inl AssertionError)"

definition l2_sqr :: "real list \<Rightarrow> real list \<Rightarrow> real" where
  "l2_sqr x y = sum_list (map (\<lambda>(a, b). (a - b)\<^sup>2) (zip x y))"

definition FLT_MAX :: real where
  "FLT_MAX = 340282346638528859811704183484516925440"

definition index_search :: "faiss_index \<Rightarrow> real list \<Rightarrow> int \<Rightarrow> pyerr + (real list \<times> int list)" where
  "index_search ix q k =
     (if length q \<noteq> dim ix \<or> k \<le> 0 then Inl AssertionError
      else
        (let ranked = sort_key fst (zip (map (l2_sqr q) (xb ix)) [0 ..< length (xb ix)]);
             top = take (nat k) ranked;
             missing = nat k - length top
         in Inr (map fst top @ replicate missing FLT_MAX,
                 map (\<lambda>(distance, i). int i) top @ replicate missing (- 1))))"

section \<open>The store: \<open>SearchEngine\<close>\<close>

record search_engine =
  embedding_dim :: nat
  index :: faiss_index
  documents :: "pydict list"
  doc_ids_to_indices :: "(string \<times> nat) list"

subsection \<open>\<open>add_documents\<close>\<close>

text \<open>\<open>[doc['embedding'] for doc in docs]\<close>\<close>

fun embeddings_of :: "pydict list \<Rightarrow> pyerr + pyval list" where
  "embeddings_of [] = Inr []"
| "embeddings_of (doc # docs) =
     (case getitem doc ''embedding'' of
        Inl e \<Rightarrow> Inl e
      | Inr v \<Rightarrow> (case embeddings_of docs of Inl e \<Rightarrow> Inl e | Inr vs \<Rightarrow> Inr (v # vs)))"

text \<open>
  \<open>np.array(...).astype('float32')\<close> and the unpacking \<open>n, d = x.shape\<close> that starts
  \<open>index.add\<close>: they go through when the values are vectors of one length, and raise
  otherwise (a \<open>ValueError\<close> or a \<open>TypeError\<close>, which the model does not tell apart).
\<close>

fun the_vec :: "pyval \<Rightarrow> real list option" where
  "the_vec (PVec v) = Some v"
| "the_vec _ = None"

definition as_matrix :: "pyval list \<Rightarrow> pyerr + real list list" where
  "as_matrix vs =
     (if list_all (\<lambda>v. the_vec v \<noteq> None \<and> map_option length (the_vec v) = map_option length (the_vec (hd vs))) vs
      then Inr (map (\<lambda>v. the (the_vec v)) vs)
      else Inl ValueError)"

text \<open>\<open>f"{doc['metadata']['doc_id']}_{doc['metadata']['chunk_id']}"\<close>\<close>

definition unique_id :: "(pyval \<Rightarrow> string) \<Rightarrow> pydict \<Rightarrow> pyerr + string" where
  "unique_id fmt doc =
     (case getitem doc ''metadata'' of
        Inl e \<Rightarrow> Inl e
      | Inr md \<Rightarrow>
          (case subscript md ''doc_id'' of
             Inl e \<Rightarrow> Inl e
           | Inr doc_id \<Rightarrow>
               (case subscript md ''chunk_id'' of
                  Inl e \<Rightarrow> Inl e
                | Inr chunk_id \<Rightarrow> Inr (py_format fmt doc_id @ ''_'' @ py_format fmt chunk_id))))"

definition doc_copy :: "pydict \<Rightarrow> pydict" where
  "doc_copy doc = filter (\<lambda>(k, v). k \<noteq> ''embedding'') doc"

text \<open>
  The \<open>for i, doc in enumerate(docs)\<close> loop. An exception leaves the loop with the
  store as it is at that moment.
\<close>

fun store_docs ::
  "(pyval \<Rightarrow> string) \<Rightarrow> nat \<Rightarrow> nat \<Rightarrow> pydict list \<Rightarrow> search_engine \<Rightarrow> pyerr option \<times> search_engine" where
  "store_docs fmt start_idx i [] se = (None, se)"
| "store_docs fmt start_idx i (doc # docs) se =
     (let se1 = se\<lparr>documents := documents se @ [doc_copy doc]\<rparr>
      in case unique_id fmt doc of
           Inl e \<Rightarrow> (Some e, se1)
         | Inr uid \<Rightarrow>
             store_docs fmt start_idx (i + 1) docs
               (se1\<lparr>doc_ids_to_indices := setitem uid (start_idx + i) (doc_ids_to_indices se1)\<rparr>))"

definition add_documents ::
  "(pyval \<Rightarrow> string) \<Rightarrow> search_engine \<Rightarrow> pydict list \<Rightarrow> pyerr option \<times> search_engine" where
  "add_documents fmt se docs =
     (if docs = [] then (None, se)
      else case embeddings_of docs of
             Inl e \<Rightarrow> (Some e, se)
           | Inr vs \<Rightarrow>
               (case as_matrix vs of
                  Inl e \<Rightarrow> (Some e, se)
                | Inr embeddings \<Rightarrow>
                    (let start_idx = length (documents se)
                     in case index_add (index se) embeddings of
                          Inl e \<Rightarrow> (Some e, se)
                        | Inr ix \<Rightarrow> store_docs fmt start_idx 0 docs (se\<lparr>index := ix\<rparr>))))"

text \<open>A sequence of \<open>add_documents\<close> calls; the first exception ends it.\<close>

fun add_all ::
  "(pyval \<Rightarrow> string) \<Rightarrow> search_engine \<Rightarrow> pydict list list \<Rightarrow> pyerr option \<times> search_engine" where
  "add_all fmt se [] = (None, se)"
| "add_all fmt se (docs # rest) =
     (case add_documents fmt se docs of
        (None, se') \<Rightarrow> add_all fmt se' rest
      | (Some e, se') \<Rightarrow> (Some e, se'))"

subsection \<open>\<open>search\<close>\<close>

text \<open>
  The loop over \<open>indices[0]\<close>. \<open>doc = self.documents[idx]\<close> is a reference to the stored
  dictionary, so \<open>doc['score'] = ...\<close> writes into the store, and \<open>results\<close> holds
  references: it is kept as the list of positions and read off the store at the end.
\<close>

fun score_loop :: "(real \<times> int) list \<Rightarrow> pydict list \<Rightarrow> nat list \<Rightarrow> (pyerr + nat list) \<times> pydict list" where
  "score_loop [] docs results = (Inr results, docs)"
| "score_loop ((distance, idx) # rest) docs results =
     (if idx \<noteq> - 1 then
        (case list_index (length docs) idx of
           Inl e \<Rightarrow> (Inl e, docs)
         | Inr j \<Rightarrow>
             score_loop rest
               (docs[j := setitem ''score'' (PFloat (1 / (1 + distance))) (docs ! j)])
               (results @ [j]))
      else score_loop rest docs results)"

definition search ::
  "search_engine \<Rightarrow> real list \<Rightarrow> int \<Rightarrow> (pyerr + pydict list) \<times> search_engine" where
  "search se query_embedding top_k =
     (if length (documents se) = 0 then (Inr [], se)
      else case index_search (index se) query_embedding (min top_k (int (length (documents se)))) of
             Inl e \<Rightarrow> (Inl e, se)
           | Inr (distances, indices) \<Rightarrow>
               (case score_loop (zip distances indices) (documents se) [] of
                  (Inl e, docs') \<Rightarrow> (Inl e, se\<lparr>documents := docs'\<rparr>)
                | (Inr results, docs') \<Rightarrow>
                    (Inr (map (\<lambda>j. docs' ! j) results), se\<lparr>documents := docs'\<rparr>)))"

subsection \<open>\<open>save_index\<close>, \<open>load_index\<close> and the constructor\<close>

text \<open>
  Modelled from the spec: the persisted state is two addressable blobs, an index blob
  written by \<open>faiss.write_index\<close> and a records blob written by \<open>pickle.dump\<close>; both
  libraries are outside the repository and are taken to store the value they are given.
  The file system maps a path to the blob stored there. Of the directory handling only
  the failure of \<open>os.makedirs\<close> on an empty directory name is modelled.
\<close>

datatype blob =
    FaissFile faiss_index
  | PickleFile "pydict list" "(string \<times> nat) list"

type_synonym filesystem = "string \<Rightarrow> blob option"

definition dirname :: "string \<Rightarrow> string" where
  "dirname path =
     (let head = rev (dropWhile (\<lambda>c. c \<noteq> CHR ''/'') (rev path))
      in if head \<noteq> [] \<and> \<not> list_all (\<lambda>c. c = CHR ''/'') head
         then rev (dropWhile (\<lambda>c. c = CHR ''/'') (rev head))
         else head)"

definition save_index ::
  "search_engine \<Rightarrow> string \<Rightarrow> string \<Rightarrow> filesystem \<Rightarrow> pyerr option \<times> filesystem" where
  "save_index se index_path docs_path fs =
     (if dirname index_path = [] then (Some FileNotFoundError, fs)
      else if dirname docs_path = [] then (Some FileNotFoundError, fs)
      else
        (let fs1 = fs(index_path := Some (FaissFile (index se)));
             fs2 = fs1(docs_path := Some (PickleFile (documents se) (doc_ids_to_indices se)))
         in (None, fs2)))"

definition load_index ::
  "search_engine \<Rightarrow> string \<Rightarrow> string \<Rightarrow> filesystem \<Rightarrow> pyerr option \<times> search_engine" where
  "load_index se index_path docs_path fs =
     (case fs index_path of
        None \<Rightarrow> (Some RuntimeError, se)
      | Some (PickleFile _ _) \<Rightarrow> (Some RuntimeError, se)
      | Some (FaissFile ix) \<Rightarrow>
          (let se1 = se\<lparr>index := ix\<rparr>
           in case fs docs_path of
                None \<Rightarrow> (Some FileNotFoundError, se1)
              | Some (FaissFile _) \<Rightarrow> (Some UnpicklingError, se1)
              | Some (PickleFile docs ids) \<Rightarrow>
                  (None, se1\<lparr>documents := docs, doc_ids_to_indices := ids\<rparr>)))"

text \<open>
  \<open>SearchEngine.__init__\<close>. The field \<open>index\<close> starts as \<open>None\<close> and is set before the
  constructor returns, or the constructor raises; the model starts it as the empty
  index, which is what the \<open>else\<close> branch assigns.
\<close>

definition SearchEngine ::
  "nat \<Rightarrow> string option \<Rightarrow> string option \<Rightarrow> filesystem \<Rightarrow> pyerr + search_engine" where
  "SearchEngine n index_path docs_path fs =
     (let self = \<lparr>embedding_dim = n, index = IndexFlatL2 n, documents = [],
                  doc_ids_to_indices = []\<rparr>
      in case (index_path, docs_path) of
           (Some ip, Some dp) \<Rightarrow>
             (if ip \<noteq> [] \<and> fs ip \<noteq> None \<and> dp \<noteq> [] \<and> fs dp \<noteq> None
              then (case load_index self ip dp fs of
                      (None, se) \<Rightarrow> Inr se
                    | (Some e, se) \<Rightarrow> Inl e)
              else Inr self)
         | _ \<Rightarrow> Inr self)"

section \<open>Properties of the chunker that the claims speak of\<close>

text \<open>A chunk that neither starts nor ends with a whitespace character.\<close>

definition trimmed :: "pystr \<Rightarrow> bool" where
  "trimmed c \<longleftrightarrow> c = [] \<or> (\<not> is_space (hd c) \<and> \<not> is_space (last c))"

text \<open>
  The cursor of the \<open>k\<close>-th iteration of the loop (\<open>start = 0\<close>, then
  \<open>start = end - chunk_overlap\<close>), the slice \<open>text[start:end]\<close> taken there and the
  chunk appended there.
\<close>

fun cursor :: "processor \<Rightarrow> pystr \<Rightarrow> nat \<Rightarrow> int" where
  "cursor p text 0 = 0"
| "cursor p text (Suc k) = chunk_end p text (cursor p text k) - chunk_overlap p"

definition slice_at :: "processor \<Rightarrow> pystr \<Rightarrow> nat \<Rightarrow> pystr" where
  "slice_at p text k = py_slice text (cursor p text k) (chunk_end p text (cursor p text k))"

definition chunk_at :: "processor \<Rightarrow> pystr \<Rightarrow> nat \<Rightarrow> pystr" where
  "chunk_at p text k = strip (slice_at p text k)"

text \<open>
  The candidate end of the chunk that starts at \<open>start\<close>, and the delimiters the boundary
  search is after: \<open>sub\<close> lies at \<open>i\<close> wholly between \<open>start\<close> and the candidate end, and
  \<open>i\<close> is strictly past \<open>start + chunk_size div 2\<close>.
\<close>

definition candidate_end :: "processor \<Rightarrow> pystr \<Rightarrow> int \<Rightarrow> int" where
  "candidate_end p text start = min (start + chunk_size p) (int (length text))"

definition qualifying :: "processor \<Rightarrow> pystr \<Rightarrow> int \<Rightarrow> pystr \<Rightarrow> nat \<Rightarrow> bool" where
  "qualifying p text start sub i \<longleftrightarrow>
     start \<le> int i \<and> int (i + length sub) \<le> candidate_end p text start \<and>
     occurs_at text sub i \<and> start + chunk_size p div 2 < int i"

definition last_qualifying :: "processor \<Rightarrow> pystr \<Rightarrow> int \<Rightarrow> pystr \<Rightarrow> nat \<Rightarrow> bool" where
  "last_qualifying p text start sub i \<longleftrightarrow>
     qualifying p text start sub i \<and> (\<forall>j \<in> {i <..< length text}. \<not> qualifying p text start sub j)"

definition none_qualifying :: "processor \<Rightarrow> pystr \<Rightarrow> int \<Rightarrow> pystr \<Rightarrow> bool" where
  "none_qualifying p text start sub \<longleftrightarrow> (\<forall>i \<in> {..< length text}. \<not> qualifying p text start sub i)"

section \<open>Properties of the store that the claims speak of\<close>

text \<open>
  A well-formed record for a store of dimension \<open>n\<close>: it carries an embedding that is a
  vector of length \<open>n\<close>, and its metadata give a \<open>doc_id\<close> and a \<open>chunk_id\<close>.
\<close>

definition well_formed :: "(pyval \<Rightarrow> string) \<Rightarrow> nat \<Rightarrow> pydict \<Rightarrow> bool" where
  "well_formed fmt n doc \<longleftrightarrow>
     (case getitem doc ''embedding'' of Inr (PVec v) \<Rightarrow> length v = n | _ \<Rightarrow> False) \<and>
     (case unique_id fmt doc of Inr uid \<Rightarrow> True | Inl e \<Rightarrow> False)"

text \<open>A record without its \<open>score\<close> entry.\<close>

definition without_score :: "pydict \<Rightarrow> pydict" where
  "without_score doc = filter (\<lambda>(k, v). k \<noteq> ''score'') doc"

text \<open>
  What a store built from the records \<open>added\<close> looks like: the records and the vectors
  are those of \<open>added\<close>, position by position, and the identity index has one entry per
  distinct key.
\<close>

definition store_inv :: "(pyval \<Rightarrow> string) \<Rightarrow> nat \<Rightarrow> search_engine \<Rightarrow> pydict list \<Rightarrow> bool" where
  "store_inv fmt n se added \<longleftrightarrow>
     dim (index se) = n \<and>
     documents se = map doc_copy added \<and>
     map (\<lambda>doc. getitem doc ''embedding'') added = map (\<lambda>v. Inr (PVec v)) (xb (index se)) \<and>
     distinct (map fst (doc_ids_to_indices se)) \<and>
     fst ` set (doc_ids_to_indices se) = {k. \<exists>doc \<in> set added. unique_id fmt doc = Inr k} \<and>
     (\<forall>doc \<in> set added. \<exists>uid. unique_id fmt doc = Inr uid)"

text \<open>
  The stored vectors with their squared distances to the query \<open>q\<close>, nearest first, as
  \<open>index_search\<close> ranks them.
\<close>

definition ranked :: "faiss_index \<Rightarrow> real list \<Rightarrow> (real \<times> nat) list" where
  "ranked ix q = sort_key fst (zip (map (l2_sqr q) (xb ix)) [0 ..< length (xb ix)])"

section \<open>The chunker: proofs\<close>

lemma filter_rev_upt_Cons:
  "filter P (rev [s..<t]) = i # rest \<Longrightarrow> s \<le> i \<and> i < t \<and> P i \<and> (\<forall>j. i < j \<and> j < t \<longrightarrow> \<not> P j)"
proof (induction t)
  case 0
  then show ?case by simp
next
  case (Suc t)
  show ?case
  proof (cases "s \<le> t")
    case False
    with Suc.prems show ?thesis by simp
  next
    case le: True
    show ?thesis
    proof (cases "P t")
      case True
      with le Suc.prems have "i = t" by simp
      with True le show ?thesis by auto
    next
      case False
      with le Suc.prems have "filter P (rev [s..<t]) = i # rest" by simp
      from Suc.IH [OF this] False show ?thesis
        by (auto simp: less_Suc_eq)
    qed
  qed
qed

lemma filter_rev_upt_Nil:
  "filter P (rev [s..<t]) = [] \<longleftrightarrow> (\<forall>j. s \<le> j \<and> j < t \<longrightarrow> \<not> P j)"
  by (auto simp: filter_empty_conv)

lemma adjust_index_le: "adjust_index n i \<le> n"
  by (auto simp: adjust_index_def)

lemma rfind_found:
  assumes "rfind text sub start end \<noteq> - 1"
  shows "\<exists>i. rfind text sub start end = int i \<and> adjust_index (length text) start \<le> i \<and>
             i + length sub \<le> adjust_index (length text) end \<and> occurs_at text sub i \<and>
             (\<forall>j. i < j \<and> j + length sub \<le> adjust_index (length text) end \<longrightarrow> \<not> occurs_at text sub j)"
proof -
  let ?s = "adjust_index (length text) start" and ?e = "adjust_index (length text) end"
  obtain i rest where f: "filter (occurs_at text sub) (rev [?s ..< Suc ?e - length sub]) = i # rest"
    using assms by (auto simp: rfind_def Let_def split: list.splits)
  then have r: "rfind text sub start end = int i" by (simp add: rfind_def Let_def)
  from filter_rev_upt_Cons [OF f] r show ?thesis by auto
qed

lemma rfind_none:
  assumes "rfind text sub start end = - 1"
  shows "\<forall>j. adjust_index (length text) start \<le> j \<and> j + length sub \<le> adjust_index (length text) end
            \<longrightarrow> \<not> occurs_at text sub j"
proof -
  let ?s = "adjust_index (length text) start" and ?e = "adjust_index (length text) end"
  have "filter (occurs_at text sub) (rev [?s ..< Suc ?e - length sub]) = []"
    using assms by (auto simp: rfind_def Let_def split: list.splits)
  then show ?thesis unfolding filter_rev_upt_Nil by auto
qed

lemma rfind_end_le:
  "rfind text sub start end \<noteq> - 1 \<Longrightarrow> rfind text sub start end + int (length sub) \<le> int (length text)"
  using rfind_found [of "text" sub start "end"] adjust_index_le [of "length text" "end"] by auto

lemma chunk_end_le: "chunk_end p text start \<le> int (length text)"
proof -
  define e where "e = min (start + chunk_size p) (int (length text))"
  have e: "e \<le> int (length text)" by (simp add: e_def)
  note r = rfind_end_le [of "text" _ start e]
  show ?thesis
    unfolding chunk_end_def Let_def e_def [symmetric]
    using e r [of "[10, 10]"] r [of "[10]"] r [of "[46, 32]"] r [of "[32]"]
    by (simp split: if_splits)
qed

lemma chunk_loop_diverges_aux:
  assumes ret: "chunk_loop p text start chunks = Some y"
  shows "\<not> (start < int (length text) \<and> 0 < chunk_overlap p)"
proof (rule chunk_loop.raw_induct
    [where P = "\<lambda>p tx start chunks y. \<not> (start < int (length tx) \<and> 0 < chunk_overlap p)", OF _ ret])
  fix loop :: "processor \<Rightarrow> pystr \<Rightarrow> int \<Rightarrow> pystr list \<Rightarrow> pystr list option"
  fix p tx start chunks y
  assume IH: "\<And>p tx start chunks y. loop p tx start chunks = Some y \<Longrightarrow>
                 \<not> (start < int (length tx) \<and> 0 < chunk_overlap p)"
  assume body: "(if start < int (length tx) then
        (let end = chunk_end p tx start;
             chunks' = chunks @ [strip (py_slice tx start end)];
             start' = end - chunk_overlap p
         in if start' \<ge> end then Some chunks' else loop p tx start' chunks')
      else Some chunks) = Some y"
  show "\<not> (start < int (length tx) \<and> 0 < chunk_overlap p)"
  proof
    assume a: "start < int (length tx) \<and> 0 < chunk_overlap p"
    let ?e = "chunk_end p tx start"
    have lt: "?e - chunk_overlap p < int (length tx)"
      using chunk_end_le [of p tx start] a by simp
    from body a
    have "loop p tx (?e - chunk_overlap p) (chunks @ [strip (py_slice tx start ?e)]) = Some y"
      by (simp add: Let_def)
    from IH [OF this] lt a show False by simp
  qed
qed

lemma chunk_text_diverges:
  "text \<noteq> [] \<Longrightarrow> 0 < chunk_overlap p \<Longrightarrow> chunk_text p text = None"
  using chunk_loop_diverges_aux [of p "text" 0 "[]"]
  by (cases "chunk_text p text") (auto simp: chunk_text_def)

lemma last_dropWhile: "dropWhile P xs \<noteq> [] \<Longrightarrow> last (dropWhile P xs) = last xs"
  by (induction xs) (auto split: if_splits)

lemma trimmed_strip: "trimmed (strip s)"
proof (cases "strip s = []")
  case True
  then show ?thesis by (simp add: trimmed_def)
next
  case False
  let ?x = "dropWhile is_space s"
  let ?y = "dropWhile is_space (rev ?x)"
  from False have y: "?y \<noteq> []" by (simp add: strip_def)
  have x: "?x \<noteq> []"
  proof
    assume e: "?x = []"
    have "?y = []" unfolding e by simp
    with y show False by simp
  qed
  have "\<not> is_space (hd ?y)" using y by (rule hd_dropWhile)
  then have l: "\<not> is_space (last (strip s))" using y by (simp add: strip_def last_rev)
  have "last ?y = last (rev ?x)" using y by (rule last_dropWhile)
  then have "hd (strip s) = hd ?x" using x y by (simp add: strip_def hd_rev last_rev)
  moreover have "\<not> is_space (hd ?x)" using x by (rule hd_dropWhile)
  ultimately show ?thesis using l by (simp add: trimmed_def)
qed

lemma strip_empty_iff: "strip s = [] \<longleftrightarrow> list_all is_space s"
proof
  assume "strip s = []"
  then have "dropWhile is_space (rev (dropWhile is_space s)) = []" by (simp add: strip_def)
  then have "\<forall>x\<in>set (dropWhile is_space s). is_space x" by (simp add: dropWhile_eq_Nil_conv)
  moreover have "\<not> is_space (hd (dropWhile is_space s))" if "dropWhile is_space s \<noteq> []"
    using that by (rule hd_dropWhile)
  ultimately have "dropWhile is_space s = []" by (metis hd_in_set) 
  then show "list_all is_space s" by (simp add: dropWhile_eq_Nil_conv list_all_iff)
next
  assume "list_all is_space s"
  then have d: "dropWhile is_space s = []" by (simp add: list_all_iff)
  show "strip s = []" by (simp only: strip_def d rev.simps dropWhile.simps)
qed

lemma chunk_loop_trimmed:
  assumes ret: "chunk_loop p text start chunks = Some cs"
  shows "list_all trimmed chunks \<longrightarrow> list_all trimmed cs"
proof (rule chunk_loop.raw_induct
    [where P = "\<lambda>p tx start chunks cs. list_all trimmed chunks \<longrightarrow> list_all trimmed cs", OF _ ret])
  fix loop :: "processor \<Rightarrow> pystr \<Rightarrow> int \<Rightarrow> pystr list \<Rightarrow> pystr list option"
  fix p tx start chunks cs
  assume IH: "\<And>p tx start chunks cs. loop p tx start chunks = Some cs \<Longrightarrow>
                 list_all trimmed chunks \<longrightarrow> list_all trimmed cs"
  assume body: "(if start < int (length tx) then
        (let end = chunk_end p tx start;
             chunks' = chunks @ [strip (py_slice tx start end)];
             start' = end - chunk_overlap p
         in if start' \<ge> end then Some chunks' else loop p tx start' chunks')
      else Some chunks) = Some cs"
  show "list_all trimmed chunks \<longrightarrow> list_all trimmed cs"
  proof
    assume t: "list_all trimmed chunks"
    let ?e = "chunk_end p tx start"
    let ?cs' = "chunks @ [strip (py_slice tx start ?e)]"
    have t': "list_all trimmed ?cs'" using t by (simp add: trimmed_strip)
    show "list_all trimmed cs"
    proof (cases "start < int (length tx)")
      case False
      with body t show ?thesis by simp
    next
      case True
      show ?thesis
      proof (cases "?e - chunk_overlap p \<ge> ?e")
        case brk: True
        with body True have "cs = ?cs'" by (simp add: Let_def)
        with t' show ?thesis by simp
      next
        case False
        with body True have "loop p tx (?e - chunk_overlap p) ?cs' = Some cs"
          by (simp add: Let_def)
        from IH [OF this] t' show ?thesis by simp
      qed
    qed
  qed
qed

lemma chunk_trace_trimmed:
  "list_all trimmed chunks \<Longrightarrow> list_all trimmed (snd (snd (chunk_trace n p text start chunks)))"
  by (induction n arbitrary: start chunks) (simp_all add: Let_def trimmed_strip)

lemma chunk_trace_running:
  assumes "0 < chunk_overlap p" and "start < int (length text)"
  shows "chunk_trace n p text start chunks =
           (False, fst (snd (chunk_trace n p text start chunks)), snd (snd (chunk_trace n p text start chunks)))
         \<and> length (snd (snd (chunk_trace n p text start chunks))) = length chunks + n"
  using assms(2)
proof (induction n arbitrary: start chunks)
  case 0
  show ?case by simp
next
  case (Suc n)
  let ?e = "chunk_end p text start"
  have "?e - chunk_overlap p < int (length text)"
    using chunk_end_le [of p "text" start] assms(1) by simp
  from Suc.IH [OF this, of "chunks @ [strip (py_slice text start ?e)]"] Suc.prems assms(1)
  show ?case by (simp add: Let_def)
qed

lemma chunk_text_no_overlap:
  assumes "text \<noteq> []" and "chunk_overlap p \<le> 0"
  shows "chunk_text p text = Some [strip (py_slice text 0 (chunk_end p text 0))]"
  using assms by (simp add: chunk_text_def chunk_loop.simps [of p "text" 0] Let_def)

lemma upt_snoc_map: "map f [0 ..< k] @ [f k] = map f [0 ..< Suc k]"
  by simp

lemma chunk_loop_chunks:
  assumes ret: "chunk_loop p text start chunks = Some cs"
  shows "\<forall>k. start = cursor p text k \<and> chunks = map (chunk_at p text) [0 ..< k]
           \<longrightarrow> (\<exists>m \<ge> k. cs = map (chunk_at p text) [0 ..< m])"
proof (rule chunk_loop.raw_induct
    [where P = "\<lambda>p tx start chunks cs. \<forall>k. start = cursor p tx k \<and> chunks = map (chunk_at p tx) [0 ..< k]
           \<longrightarrow> (\<exists>m \<ge> k. cs = map (chunk_at p tx) [0 ..< m])", OF _ ret])
  fix loop :: "processor \<Rightarrow> pystr \<Rightarrow> int \<Rightarrow> pystr list \<Rightarrow> pystr list option"
  fix p tx start chunks cs
  assume IH: "\<And>p tx start chunks cs. loop p tx start chunks = Some cs \<Longrightarrow>
                 \<forall>k. start = cursor p tx k \<and> chunks = map (chunk_at p tx) [0 ..< k]
                   \<longrightarrow> (\<exists>m \<ge> k. cs = map (chunk_at p tx) [0 ..< m])"
  assume body: "(if start < int (length tx) then
        (let end = chunk_end p tx start;
             chunks' = chunks @ [strip (py_slice tx start end)];
             start' = end - chunk_overlap p
         in if start' \<ge> end then Some chunks' else loop p tx start' chunks')
      else Some chunks) = Some cs"
  show "\<forall>k. start = cursor p tx k \<and> chunks = map (chunk_at p tx) [0 ..< k]
           \<longrightarrow> (\<exists>m \<ge> k. cs = map (chunk_at p tx) [0 ..< m])"
  proof (intro allI impI)
    fix k
    assume a: "start = cursor p tx k \<and> chunks = map (chunk_at p tx) [0 ..< k]"
    let ?e = "chunk_end p tx start"
    let ?cs' = "chunks @ [strip (py_slice tx start ?e)]"
    from a have cs': "?cs' = map (chunk_at p tx) [0 ..< Suc k]"
      by (simp add: chunk_at_def slice_at_def)
    show "\<exists>m \<ge> k. cs = map (chunk_at p tx) [0 ..< m]"
    proof (cases "start < int (length tx)")
      case False
      with body a show ?thesis by auto
    next
      case True
      show ?thesis
      proof (cases "?e - chunk_overlap p \<ge> ?e")
        case brk: True
        with body True have "cs = ?cs'" by (simp add: Let_def)
        with cs' show ?thesis by (intro exI [of _ "Suc k"]) simp
      next
        case False
        with body True have run: "loop p tx (?e - chunk_overlap p) ?cs' = Some cs"
          by (simp add: Let_def)
        from a have "?e - chunk_overlap p = cursor p tx (Suc k)" by simp
        with IH [OF run] cs' obtain m where "m \<ge> Suc k" "cs = map (chunk_at p tx) [0 ..< m]"
          by blast
        then show ?thesis by (intro exI [of _ m]) simp
      qed
    qed
  qed
qed

lemma chunk_trace_chunks:
  "\<exists>m. k \<le> m \<and> m \<le> k + n \<and>
     snd (snd (chunk_trace n p text (cursor p text k) (map (chunk_at p text) [0 ..< k]))) =
       map (chunk_at p text) [0 ..< m]"
proof (induction n arbitrary: k)
  case 0
  show ?case by (intro exI [of _ k]) simp
next
  case (Suc n)
  let ?s = "cursor p text k"
  let ?e = "chunk_end p text ?s"
  let ?cs' = "map (chunk_at p text) [0 ..< k] @ [strip (py_slice text ?s ?e)]"
  have cs': "?cs' = map (chunk_at p text) [0 ..< Suc k]"
    by (simp add: chunk_at_def slice_at_def)
  show ?case
  proof (cases "?s < int (length text)")
    case False
    then show ?thesis by (intro exI [of _ k]) simp
  next
    case True
    show ?thesis
    proof (cases "?e - chunk_overlap p \<ge> ?e")
      case brk: True
      with True have "snd (snd (chunk_trace (Suc n) p text ?s (map (chunk_at p text) [0 ..< k]))) = ?cs'"
        by (simp add: Let_def)
      with cs' show ?thesis by (intro exI [of _ "Suc k"]) simp
    next
      case False
      with True have "chunk_trace (Suc n) p text ?s (map (chunk_at p text) [0 ..< k]) =
          chunk_trace n p text (cursor p text (Suc k)) ?cs'"
        by (simp add: Let_def)
      with cs' Suc.IH [of "Suc k"] obtain m where "Suc k \<le> m" "m \<le> Suc k + n"
        "snd (snd (chunk_trace (Suc n) p text ?s (map (chunk_at p text) [0 ..< k]))) =
           map (chunk_at p text) [0 ..< m]"
        by (metis)
      then show ?thesis by (intro exI [of _ m]) simp
    qed
  qed
qed

lemma chunk_text_first_chunk:
  assumes "text \<noteq> []" and "chunk_text p text = Some cs"
  shows "\<exists>m > 0. cs = map (chunk_at p text) [0 ..< m]"
proof -
  let ?e = "chunk_end p text 0"
  let ?c = "[strip (py_slice text 0 ?e)]"
  have c: "?c = map (chunk_at p text) [0 ..< Suc 0]" by (simp add: chunk_at_def slice_at_def)
  from assms have run: "chunk_loop p text 0 [] = Some cs" by (simp add: chunk_text_def)
  show ?thesis
  proof (cases "?e - chunk_overlap p \<ge> ?e")
    case True
    with run assms(1) have "cs = ?c" by (simp add: chunk_loop.simps [of p "text" 0] Let_def)
    with c show ?thesis by (intro exI [of _ "Suc 0"]) simp
  next
    case False
    with run assms(1) have "chunk_loop p text (cursor p text (Suc 0)) ?c = Some cs"
      by (simp add: chunk_loop.simps [of p "text" 0] Let_def)
    from chunk_loop_chunks [OF this] c obtain m where "m \<ge> Suc 0" "cs = map (chunk_at p text) [0 ..< m]"
      by (metis)
    then show ?thesis by (intro exI [of _ m]) simp
  qed
qed

text \<open>
  Claim C9, as amended. The chunks the chunker emits are, in order, the slices
  \<open>text[start:end]\<close> of its iterations with leading and trailing whitespace removed
  (\<open>chunk_at\<close>): this holds for the sequence that is returned, which has at least one
  chunk when the text is not empty, and for the chunks emitted within any number of
  iterations. Such a chunk neither starts nor ends with a whitespace character, and it is
  the empty string exactly when its slice holds only whitespace, so the empty string can
  be emitted.
\<close>

theorem chunks_trimmed:
  "(chunk_text p text = Some cs \<longrightarrow>
      (\<exists>m. cs = map (chunk_at p text) [0 ..< m] \<and> (text \<noteq> [] \<longrightarrow> 0 < m)) \<and> list_all trimmed cs) \<and>
   (\<exists>m \<le> n. snd (snd (chunk_trace n p text 0 [])) = map (chunk_at p text) [0 ..< m]) \<and>
   list_all trimmed (snd (snd (chunk_trace n p text 0 []))) \<and>
   chunk_at p text k = strip (py_slice text (cursor p text k) (chunk_end p text (cursor p text k))) \<and>
   trimmed (chunk_at p text k) \<and>
   (chunk_at p text k = [] \<longleftrightarrow>
      list_all is_space (py_slice text (cursor p text k) (chunk_end p text (cursor p text k))))"
proof (intro conjI impI)
  assume r: "chunk_text p text = Some cs"
  show "\<exists>m. cs = map (chunk_at p text) [0 ..< m] \<and> (text \<noteq> [] \<longrightarrow> 0 < m)"
  proof (cases "text = []")
    case True
    with r show ?thesis by (intro exI [of _ 0]) (simp add: chunk_text_def)
  next
    case False
    from chunk_text_first_chunk [OF False r] False show ?thesis by blast
  qed
  show "list_all trimmed cs"
    using chunk_loop_trimmed [of p "text" 0 "[]" cs] r
    by (auto simp: chunk_text_def split: if_splits)
next
  from chunk_trace_chunks [of 0 n p "text"]
  show "\<exists>m \<le> n. snd (snd (chunk_trace n p text 0 [])) = map (chunk_at p text) [0 ..< m]"
    by auto
  show "list_all trimmed (snd (snd (chunk_trace n p text 0 [])))"
    by (rule chunk_trace_trimmed) simp
  show "chunk_at p text k = strip (py_slice text (cursor p text k) (chunk_end p text (cursor p text k)))"
    by (simp add: chunk_at_def slice_at_def)
  show "trimmed (chunk_at p text k)" by (simp add: chunk_at_def trimmed_strip)
  show "chunk_at p text k = [] \<longleftrightarrow>
      list_all is_space (py_slice text (cursor p text k) (chunk_end p text (cursor p text k)))"
    by (simp add: chunk_at_def slice_at_def strip_empty_iff)
qed

lemma qualifying_less_length:
  "qualifying p text start sub i \<Longrightarrow> sub \<noteq> [] \<Longrightarrow> i < length text"
  by (cases sub) (auto simp: qualifying_def candidate_end_def)

lemma window_adjust:
  assumes "0 \<le> start" and "candidate_end p text start < int (length text)" and "0 < chunk_size p"
  shows "adjust_index (length text) start = nat start"
    and "adjust_index (length text) (candidate_end p text start) = nat (candidate_end p text start)"
    and "0 \<le> candidate_end p text start"
  using assms by (auto simp: adjust_index_def candidate_end_def)

lemma rfind_qualifying:
  assumes s: "0 \<le> start" and e: "candidate_end p text start < int (length text)"
    and z: "0 < chunk_size p" and sub: "sub \<noteq> []"
  defines "r \<equiv> rfind text sub start (candidate_end p text start)"
  shows "(r \<noteq> - 1 \<and> start + chunk_size p div 2 < r) \<longleftrightarrow> \<not> none_qualifying p text start sub"
    and "last_qualifying p text start sub i \<Longrightarrow> r = int i"
proof -
  note w = window_adjust [OF s e z]
  have found: "\<exists>k. r = int k \<and> nat start \<le> k \<and> k + length sub \<le> nat (candidate_end p text start) \<and>
        occurs_at text sub k \<and>
        (\<forall>j. k < j \<and> j + length sub \<le> nat (candidate_end p text start) \<longrightarrow> \<not> occurs_at text sub j)"
    if "r \<noteq> - 1"
    using rfind_found [of "text" sub start "candidate_end p text start"] that
    unfolding r_def w by simp
  have none: "\<forall>j. nat start \<le> j \<and> j + length sub \<le> nat (candidate_end p text start) \<longrightarrow> \<not> occurs_at text sub j"
    if "r = - 1"
    using rfind_none [of "text" sub start "candidate_end p text start"] that
    unfolding r_def w by simp
  have q_r: "r \<noteq> - 1 \<and> int j \<le> r" if q: "qualifying p text start sub j" for j
  proof -
    from q have win: "nat start \<le> j" "j + length sub \<le> nat (candidate_end p text start)"
      and occ: "occurs_at text sub j"
      using s w(3) by (auto simp: qualifying_def)
    have ne: "r \<noteq> - 1" using none win occ by blast
    from found [OF ne] obtain k where k: "r = int k"
      "\<forall>j. k < j \<and> j + length sub \<le> nat (candidate_end p text start) \<longrightarrow> \<not> occurs_at text sub j"
      by blast
    have "j \<le> k" using k(2) win occ by (meson not_le_imp_less)
    with ne k(1) show ?thesis by simp
  qed
  have r_q: "qualifying p text start sub (nat r)" if "r \<noteq> - 1" "start + chunk_size p div 2 < r"
  proof -
    from found [OF that(1)] obtain k where k: "r = int k" "nat start \<le> k"
      "k + length sub \<le> nat (candidate_end p text start)" "occurs_at text sub k" by blast
    then show ?thesis using that(2) s w(3) by (auto simp: qualifying_def)
  qed
  show "(r \<noteq> - 1 \<and> start + chunk_size p div 2 < r) \<longleftrightarrow> \<not> none_qualifying p text start sub"
  proof
    assume a: "r \<noteq> - 1 \<and> start + chunk_size p div 2 < r"
    then have q: "qualifying p text start sub (nat r)" using r_q by blast
    from qualifying_less_length [OF q sub] q show "\<not> none_qualifying p text start sub"
      by (auto simp: none_qualifying_def)
  next
    assume "\<not> none_qualifying p text start sub"
    then obtain j where q: "qualifying p text start sub j" by (auto simp: none_qualifying_def)
    from q_r [OF q] q show "r \<noteq> - 1 \<and> start + chunk_size p div 2 < r"
      by (auto simp: qualifying_def)
  qed
  show "r = int i" if l: "last_qualifying p text start sub i"
  proof -
    from l have q: "qualifying p text start sub i" by (simp add: last_qualifying_def)
    from q_r [OF q] have ne: "r \<noteq> - 1" and le: "int i \<le> r" by simp_all
    from q le have "start + chunk_size p div 2 < r" by (simp add: qualifying_def)
    from r_q [OF ne this] have qr: "qualifying p text start sub (nat r)" .
    have "\<not> i < nat r"
      using l qr qualifying_less_length [OF qr sub] by (auto simp: last_qualifying_def)
    with le show ?thesis by simp
  qed
qed

lemma strip_append_spaces:
  assumes "list_all is_space ws"
  shows "strip (xs @ ws) = strip xs"
proof (cases "list_all is_space xs")
  case True
  with assms have "list_all is_space (xs @ ws)" by simp
  with True show ?thesis by (simp only: strip_empty_iff [symmetric])
next
  case False
  then have d: "dropWhile is_space (xs @ ws) = dropWhile is_space xs @ ws"
    by (auto simp: list_all_iff dropWhile_append1)
  have "dropWhile is_space (rev ws @ rev (dropWhile is_space xs)) =
          dropWhile is_space (rev (dropWhile is_space xs))"
    using assms by (intro dropWhile_append2) (simp add: list_all_iff)
  then show ?thesis by (simp add: strip_def d)
qed

lemma py_slice_delimiter:
  assumes "0 \<le> start" and "start \<le> int i" and "i + length sub \<le> length text"
    and "occurs_at text sub i"
  shows "py_slice text start (int i + int (length sub)) = py_slice text start (int i) @ sub"
proof -
  let ?s = "nat start"
  from assms have s: "?s \<le> i" by simp
  have a1: "adjust_index (length text) start = ?s" using assms by (simp add: adjust_index_def)
  have a2: "adjust_index (length text) (int i) = i" using assms by (simp add: adjust_index_def)
  have a3: "adjust_index (length text) (int i + int (length sub)) = i + length sub"
    using assms by (simp add: adjust_index_def nat_add_distrib)
  have eq: "i + length sub - ?s = (i - ?s) + length sub" using s by simp
  have "take (i + length sub - ?s) (drop ?s text) =
          take (i - ?s) (drop ?s text) @ take (length sub) (drop (i - ?s) (drop ?s text))"
    by (simp only: eq take_add)
  moreover have "drop (i - ?s) (drop ?s text) = drop i text" using s by simp
  moreover have "take (length sub) (drop i text) = sub" using assms(4) by (simp add: occurs_at_def)
  ultimately have "take (i + length sub - ?s) (drop ?s text) = take (i - ?s) (drop ?s text) @ sub"
    by simp
  then show ?thesis by (simp add: py_slice_def a1 a2 a3 Let_def)
qed

lemma chunk_trace_step:
  "start < int (length text) \<Longrightarrow>
     snd (snd (chunk_trace (Suc 0) p text start chunks)) =
       chunks @ [strip (py_slice text start (chunk_end p text start))]"
  by (simp add: Let_def)

lemma last_qualifying_slice:
  assumes s: "0 \<le> start" and e: "candidate_end p text start < int (length text)"
    and l: "last_qualifying p text start sub i"
  shows "py_slice text start (int i + int (length sub)) = py_slice text start (int i) @ sub"
proof -
  from l have q: "start \<le> int i" "int (i + length sub) \<le> candidate_end p text start"
    "occurs_at text sub i"
    by (simp_all add: last_qualifying_def qualifying_def)
  from q(2) e have "i + length sub \<le> length text" by simp
  from py_slice_delimiter [OF s q(1) this q(3)] show ?thesis .
qed

text \<open>
  Claim C8, as amended. In a chunking step whose cursor \<open>start\<close> is not negative and
  whose candidate end \<open>min (start + size) (len text)\<close> is not the text end, the chunk end
  is decided in priority order by a paragraph break (two line feeds), a line break, a
  period followed by a space character, and a space: the first kind that occurs between
  \<open>start\<close> and the candidate end at a position strictly past \<open>start + size div 2\<close> wins,
  the chunk ends just past its last such occurrence, and when no kind qualifies the
  chunk ends exactly at the candidate end. The delimiter is the end of the slice
  \<open>text[start:end]\<close>; the chunk appended in that step is the slice stripped, so a
  paragraph break, a line break or a space at the end is not part of the emitted chunk,
  and of a period followed by a space the period is kept and the space is not.
\<close>

theorem chunk_end_boundary:
  assumes s: "0 \<le> start" and z: "0 < chunk_size p"
    and e: "candidate_end p text start < int (length text)"
  shows "(last_qualifying p text start [10, 10] i \<longrightarrow> chunk_end p text start = int i + 2) \<and>
         (none_qualifying p text start [10, 10] \<and> last_qualifying p text start [10] i
            \<longrightarrow> chunk_end p text start = int i + 1) \<and>
         (none_qualifying p text start [10, 10] \<and> none_qualifying p text start [10] \<and>
          last_qualifying p text start [46, 32] i
            \<longrightarrow> chunk_end p text start = int i + 2) \<and>
         (none_qualifying p text start [10, 10] \<and> none_qualifying p text start [10] \<and>
          none_qualifying p text start [46, 32] \<and> last_qualifying p text start [32] i
            \<longrightarrow> chunk_end p text start = int i + 1) \<and>
         (none_qualifying p text start [10, 10] \<and> none_qualifying p text start [10] \<and>
          none_qualifying p text start [46, 32] \<and> none_qualifying p text start [32]
            \<longrightarrow> chunk_end p text start = candidate_end p text start) \<and>
         snd (snd (chunk_trace (Suc 0) p text start chunks)) =
           chunks @ [strip (py_slice text start (chunk_end p text start))] \<and>
         (last_qualifying p text start [10, 10] i \<longrightarrow>
            py_slice text start (chunk_end p text start) = py_slice text start (int i) @ [10, 10] \<and>
            strip (py_slice text start (chunk_end p text start)) = strip (py_slice text start (int i))) \<and>
         (none_qualifying p text start [10, 10] \<and> last_qualifying p text start [10] i \<longrightarrow>
            py_slice text start (chunk_end p text start) = py_slice text start (int i) @ [10] \<and>
            strip (py_slice text start (chunk_end p text start)) = strip (py_slice text start (int i))) \<and>
         (none_qualifying p text start [10, 10] \<and> none_qualifying p text start [10] \<and>
          last_qualifying p text start [46, 32] i \<longrightarrow>
            py_slice text start (chunk_end p text start) = py_slice text start (int i) @ [46, 32] \<and>
            strip (py_slice text start (chunk_end p text start)) =
              strip (py_slice text start (int i) @ [46])) \<and>
         (none_qualifying p text start [10, 10] \<and> none_qualifying p text start [10] \<and>
          none_qualifying p text start [46, 32] \<and> last_qualifying p text start [32] i \<longrightarrow>
            py_slice text start (chunk_end p text start) = py_slice text start (int i) @ [32] \<and>
            strip (py_slice text start (chunk_end p text start)) = strip (py_slice text start (int i)))"
proof -
  note q = rfind_qualifying [OF s e z]
  let ?R = "\<lambda>sub. rfind text sub start (candidate_end p text start)"
  let ?N = "none_qualifying p text start"
  have ce: "chunk_end p text start =
      (if \<not> ?N [10, 10] then ?R [10, 10] + 2
       else if \<not> ?N [10] then ?R [10] + 1
       else if \<not> ?N [46, 32] then ?R [46, 32] + 2
       else if \<not> ?N [32] then ?R [32] + 1
       else candidate_end p text start)"
    unfolding chunk_end_def Let_def candidate_end_def [symmetric]
    using e by (simp add: q(1))
  have l: "\<not> ?N sub" if "last_qualifying p text start sub i" "sub \<noteq> []" for sub
    using qualifying_less_length [of p "text" start sub i] that
    by (auto simp: last_qualifying_def none_qualifying_def)
  have c1: "last_qualifying p text start [10, 10] i \<longrightarrow> chunk_end p text start = int i + 2"
    using l [of "[10, 10]"] q(2) [of "[10, 10]" i] by (simp add: ce)
  have c2: "?N [10, 10] \<and> last_qualifying p text start [10] i
            \<longrightarrow> chunk_end p text start = int i + 1"
    using l [of "[10]"] q(2) [of "[10]" i] by (simp add: ce)
  have c3: "?N [10, 10] \<and> ?N [10] \<and> last_qualifying p text start [46, 32] i
            \<longrightarrow> chunk_end p text start = int i + 2"
    using l [of "[46, 32]"] q(2) [of "[46, 32]" i] by (simp add: ce)
  have c4: "?N [10, 10] \<and> ?N [10] \<and> ?N [46, 32] \<and> last_qualifying p text start [32] i
            \<longrightarrow> chunk_end p text start = int i + 1"
    using l [of "[32]"] q(2) [of "[32]" i] by (simp add: ce)
  have c5: "?N [10, 10] \<and> ?N [10] \<and> ?N [46, 32] \<and> ?N [32]
            \<longrightarrow> chunk_end p text start = candidate_end p text start"
    by (simp add: ce)
  from s z e have lt: "start < int (length text)" by (simp add: candidate_end_def)
  note c6 = chunk_trace_step [OF lt, of p chunks]
  note sl = last_qualifying_slice [OF s e]
  have sp: "is_space 10" "is_space 32" by (simp_all add: is_space_def)
  have d1: "last_qualifying p text start [10, 10] i \<longrightarrow>
            py_slice text start (chunk_end p text start) = py_slice text start (int i) @ [10, 10] \<and>
            strip (py_slice text start (chunk_end p text start)) = strip (py_slice text start (int i))"
  proof
    assume a: "last_qualifying p text start [10, 10] i"
    with c1 sl [OF a] have "py_slice text start (chunk_end p text start) = py_slice text start (int i) @ [10, 10]"
      by simp
    moreover have "strip (py_slice text start (int i) @ [10, 10]) = strip (py_slice text start (int i))"
      by (rule strip_append_spaces) (simp add: sp)
    ultimately show "py_slice text start (chunk_end p text start) = py_slice text start (int i) @ [10, 10] \<and>
            strip (py_slice text start (chunk_end p text start)) = strip (py_slice text start (int i))"
      by simp
  qed
  have d2: "?N [10, 10] \<and> last_qualifying p text start [10] i \<longrightarrow>
            py_slice text start (chunk_end p text start) = py_slice text start (int i) @ [10] \<and>
            strip (py_slice text start (chunk_end p text start)) = strip (py_slice text start (int i))"
  proof
    assume a: "?N [10, 10] \<and> last_qualifying p text start [10] i"
    with c2 sl [of "[10]" i] have "py_slice text start (chunk_end p text start) = py_slice text start (int i) @ [10]"
      by simp
    moreover have "strip (py_slice text start (int i) @ [10]) = strip (py_slice text start (int i))"
      by (rule strip_append_spaces) (simp add: sp)
    ultimately show "py_slice text start (chunk_end p text start) = py_slice text start (int i) @ [10] \<and>
            strip (py_slice text start (chunk_end p text start)) = strip (py_slice text start (int i))"
      by simp
  qed
  have d3: "?N [10, 10] \<and> ?N [10] \<and> last_qualifying p text start [46, 32] i \<longrightarrow>
            py_slice text start (chunk_end p text start) = py_slice text start (int i) @ [46, 32] \<and>
            strip (py_slice text start (chunk_end p text start)) =
              strip (py_slice text start (int i) @ [46])"
  proof
    assume a: "?N [10, 10] \<and> ?N [10] \<and> last_qualifying p text start [46, 32] i"
    with c3 sl [of "[46, 32]" i]
    have "py_slice text start (chunk_end p text start) = py_slice text start (int i) @ [46, 32]"
      by simp
    moreover have "strip ((py_slice text start (int i) @ [46]) @ [32]) =
        strip (py_slice text start (int i) @ [46])"
      by (rule strip_append_spaces) (simp add: sp)
    ultimately show "py_slice text start (chunk_end p text start) = py_slice text start (int i) @ [46, 32] \<and>
            strip (py_slice text start (chunk_end p text start)) =
              strip (py_slice text start (int i) @ [46])"
      by simp
  qed
  have d4: "?N [10, 10] \<and> ?N [10] \<and> ?N [46, 32] \<and> last_qualifying p text start [32] i \<longrightarrow>
            py_slice text start (chunk_end p text start) = py_slice text start (int i) @ [32] \<and>
            strip (py_slice text start (chunk_end p text start)) = strip (py_slice text start (int i))"
  proof
    assume a: "?N [10, 10] \<and> ?N [10] \<and> ?N [46, 32] \<and> last_qualifying p text start [32] i"
    with c4 sl [of "[32]" i] have "py_slice text start (chunk_end p text start) = py_slice text start (int i) @ [32]"
      by simp
    moreover have "strip (py_slice text start (int i) @ [32]) = strip (py_slice text start (int i))"
      by (rule strip_append_spaces) (simp add: sp)
    ultimately show "py_slice text start (chunk_end p text start) = py_slice text start (int i) @ [32] \<and>
            strip (py_slice text start (chunk_end p text start)) = strip (py_slice text start (int i))"
      by simp
  qed
  from c1 c2 c3 c4 c5 c6 d1 d2 d3 d4 show ?thesis by blast
qed

text \<open>The loop on the default configuration, at a one-character text.\<close>

lemma chunk_trace_default_grows:
  "length (snd (snd (chunk_trace n \<lparr>chunk_size = 1000, chunk_overlap = 200\<rparr> [97] 0 []))) = n"
  using chunk_trace_running [of "\<lparr>chunk_size = 1000, chunk_overlap = 200\<rparr>" 0 "[97]" n "[]"]
  by simp

text \<open>
  Claim C1. The chunker is to return, with at least one chunk, on every non-empty text
  under a valid configuration. With the default configuration (size 1000, overlap 200)
  and the text \<open>a\<close> the loop does not return: the cursor goes back to \<open>end - overlap\<close>,
  which stays below the text length, and the guard \<open>start \<ge> end\<close> never holds when the
  overlap is positive (\<open>chunk_text_diverges\<close>).
\<close>

theorem chunk_text_default_never_returns:
  "chunk_text \<lparr>chunk_size = 1000, chunk_overlap = 200\<rparr> [97] = None"
  using chunk_text_diverges [of "[97]" "\<lparr>chunk_size = 1000, chunk_overlap = 200\<rparr>"] by simp

text \<open>
  Claim C2. The chunks are to reconstruct the text. With overlap 0 the guard
  \<open>start \<ge> end\<close> leaves the loop after the first chunk (\<open>chunk_text_no_overlap\<close>): on
  the text \<open>abcd\<close> with size 2 the chunker returns the single chunk \<open>ab\<close>.
\<close>

theorem chunk_text_drops_rest:
  "chunk_text \<lparr>chunk_size = 2, chunk_overlap = 0\<rparr> [97, 98, 99, 100] = Some [[97, 98]]"
  by (simp add: chunk_text_no_overlap chunk_end_def Let_def rfind_def adjust_index_def
      py_slice_def strip_def is_space_def occurs_at_def)

text \<open>
  Claim C9 as stated fails: with size 1 and overlap 0 the text made of one space is not
  empty, and the sequence returned for it holds the empty string.
\<close>

theorem chunk_text_emits_empty_chunk:
  "chunk_text \<lparr>chunk_size = 1, chunk_overlap = 0\<rparr> [32] = Some [[]]"
  by (simp add: chunk_text_no_overlap chunk_end_def py_slice_def adjust_index_def strip_def
      is_space_def)

lemmas chunker_eval = chunk_text_no_overlap chunk_end_def Let_def rfind_def adjust_index_def
  py_slice_def strip_def is_space_def occurs_at_def chunk_at_def slice_at_def

theorem chunks_trimmed_witness:
  "chunk_text \<lparr>chunk_size = 10, chunk_overlap = 0\<rparr> [32, 97, 32] = Some [[97]] \<and>
   (\<exists>m. [[97]] = map (chunk_at \<lparr>chunk_size = 10, chunk_overlap = 0\<rparr> [32, 97, 32]) [0 ..< m] \<and> 0 < m) \<and>
   list_all trimmed [[97 :: nat]] \<and>
   chunk_text \<lparr>chunk_size = 1, chunk_overlap = 0\<rparr> [32] = Some [[]] \<and>
   chunk_at \<lparr>chunk_size = 1, chunk_overlap = 0\<rparr> [32] 0 = [] \<and>
   list_all is_space (py_slice [32] (cursor \<lparr>chunk_size = 1, chunk_overlap = 0\<rparr> [32] 0)
      (chunk_end \<lparr>chunk_size = 1, chunk_overlap = 0\<rparr> [32] (cursor \<lparr>chunk_size = 1, chunk_overlap = 0\<rparr> [32] 0)))"
proof -
  let ?p = "\<lparr>chunk_size = 10, chunk_overlap = 0\<rparr>" and ?q = "\<lparr>chunk_size = 1, chunk_overlap = 0\<rparr>"
  have r1: "chunk_text ?p [32, 97, 32] = Some [[97]]" by (simp add: chunker_eval)
  have r2: "chunk_text ?q [32] = Some [[]]" by (simp add: chunker_eval)
  have e2: "chunk_at ?q [32] 0 = []" by (simp add: chunker_eval)
  from chunks_trimmed [of ?p "[32, 97, 32]" "[[97]]" 0 0] r1
  have a: "(\<exists>m. [[97]] = map (chunk_at ?p [32, 97, 32]) [0 ..< m] \<and> 0 < m) \<and> list_all trimmed [[97 :: nat]]"
    by simp
  from chunks_trimmed [of ?q "[32]" "[[]]" 0 0] e2
  have b: "list_all is_space (py_slice [32] (cursor ?q [32] 0) (chunk_end ?q [32] (cursor ?q [32] 0)))"
    by blast
  from r1 r2 e2 a b show ?thesis by blast
qed

lemmas boundary_eval = last_qualifying_def none_qualifying_def qualifying_def candidate_end_def
  occurs_at_def greaterThanLessThan_upt atLeast_upt

theorem chunk_end_boundary_witness:
  "chunk_end \<lparr>chunk_size = 10, chunk_overlap = 0\<rparr>
     [97, 98, 99, 100, 101, 102, 103, 10, 10, 104, 105, 106, 107, 108, 109] 0 = 9 \<and>
   snd (snd (chunk_trace (Suc 0) \<lparr>chunk_size = 10, chunk_overlap = 0\<rparr>
     [97, 98, 99, 100, 101, 102, 103, 10, 10, 104, 105, 106, 107, 108, 109] 0 []))
     = [[97, 98, 99, 100, 101, 102, 103]] \<and>
   chunk_end \<lparr>chunk_size = 10, chunk_overlap = 0\<rparr>
     [97, 98, 99, 100, 101, 102, 103, 10, 104, 105, 106, 107, 108, 109, 110] 0 = 8 \<and>
   chunk_end \<lparr>chunk_size = 10, chunk_overlap = 0\<rparr>
     [97, 98, 99, 100, 101, 102, 46, 32, 104, 32, 105, 106, 107, 108, 109, 110] 0 = 8 \<and>
   snd (snd (chunk_trace (Suc 0) \<lparr>chunk_size = 10, chunk_overlap = 0\<rparr>
     [97, 98, 99, 100, 101, 102, 46, 32, 104, 32, 105, 106, 107, 108, 109, 110] 0 []))
     = [[97, 98, 99, 100, 101, 102, 46]] \<and>
   chunk_end \<lparr>chunk_size = 10, chunk_overlap = 0\<rparr>
     [97, 98, 99, 100, 101, 102, 103, 104, 105, 106, 107, 32, 109, 110, 111, 112, 113, 114, 115] 3 = 12 \<and>
   chunk_end \<lparr>chunk_size = 10, chunk_overlap = 0\<rparr>
     [97, 98, 99, 100, 101, 102, 103, 104, 105, 106, 107, 108, 109, 110, 111] 0 = 10"
proof -
  let ?p = "\<lparr>chunk_size = 10, chunk_overlap = 0\<rparr>"
  let ?t1 = "[97, 98, 99, 100, 101, 102, 103, 10, 10, 104, 105, 106, 107, 108, 109] :: nat list"
  let ?t3 = "[97, 98, 99, 100, 101, 102, 46, 32, 104, 32, 105, 106, 107, 108, 109, 110] :: nat list"
  have h1: "(0::int) \<le> 0" "0 < chunk_size ?p" "candidate_end ?p ?t1 0 < int (length ?t1)"
    "last_qualifying ?p ?t1 0 [10, 10] 7"
    by (simp_all add: boundary_eval)
  note b1 = chunk_end_boundary [OF h1(1-3), of 7 "[]"]
  from b1 h1(4) have "chunk_end ?p ?t1 0 = int 7 + 2" by blast
  then have 1: "chunk_end ?p ?t1 0 = 9" by simp
  from b1 have t1: "snd (snd (chunk_trace (Suc 0) ?p ?t1 0 [])) =
      [] @ [strip (py_slice ?t1 0 (chunk_end ?p ?t1 0))]" by blast
  from b1 h1(4) have s1: "strip (py_slice ?t1 0 (chunk_end ?p ?t1 0)) = strip (py_slice ?t1 0 (int 7))"
    by blast
  have c1: "snd (snd (chunk_trace (Suc 0) ?p ?t1 0 [])) = [[97, 98, 99, 100, 101, 102, 103]]"
    unfolding t1 s1 by (simp add: py_slice_def adjust_index_def strip_def is_space_def)
  have 2: "chunk_end ?p [97, 98, 99, 100, 101, 102, 103, 10, 104, 105, 106, 107, 108, 109, 110] 0 = 8"
    using chunk_end_boundary
      [of 0 ?p "[97, 98, 99, 100, 101, 102, 103, 10, 104, 105, 106, 107, 108, 109, 110]" 7 "[]"]
    by (simp add: boundary_eval)
  have h3: "(0::int) \<le> 0" "0 < chunk_size ?p" "candidate_end ?p ?t3 0 < int (length ?t3)"
    "none_qualifying ?p ?t3 0 [10, 10]" "none_qualifying ?p ?t3 0 [10]"
    "last_qualifying ?p ?t3 0 [46, 32] 6"
    by (simp_all add: boundary_eval)
  note b3 = chunk_end_boundary [OF h3(1-3), of 6 "[]"]
  from b3 h3(4-6) have "chunk_end ?p ?t3 0 = int 6 + 2" by blast
  then have 3: "chunk_end ?p ?t3 0 = 8" by simp
  from b3 have t3: "snd (snd (chunk_trace (Suc 0) ?p ?t3 0 [])) =
      [] @ [strip (py_slice ?t3 0 (chunk_end ?p ?t3 0))]" by blast
  from b3 h3(4-6)
  have s3: "strip (py_slice ?t3 0 (chunk_end ?p ?t3 0)) = strip (py_slice ?t3 0 (int 6) @ [46])"
    by blast
  have c3: "snd (snd (chunk_trace (Suc 0) ?p ?t3 0 [])) = [[97, 98, 99, 100, 101, 102, 46]]"
    unfolding t3 s3 by (simp add: py_slice_def adjust_index_def strip_def is_space_def)
  have 4: "chunk_end ?p
      [97, 98, 99, 100, 101, 102, 103, 104, 105, 106, 107, 32, 109, 110, 111, 112, 113, 114, 115] 3 = 12"
    using chunk_end_boundary
      [of 3 ?p "[97, 98, 99, 100, 101, 102, 103, 104, 105, 106, 107, 32, 109, 110, 111, 112, 113, 114, 115]" 11 "[]"]
    by (simp add: boundary_eval)
  have 5: "chunk_end ?p [97, 98, 99, 100, 101, 102, 103, 104, 105, 106, 107, 108, 109, 110, 111] 0 = 10"
    using chunk_end_boundary
      [of 0 ?p "[97, 98, 99, 100, 101, 102, 103, 104, 105, 106, 107, 108, 109, 110, 111]" 0 "[]"]
    by (simp add: boundary_eval)
  from 1 c1 2 3 c3 4 5 show ?thesis by blast
qed

text \<open>
  Claim C8 as stated fails on the third kind of delimiter. In the text
  \<open>abcdefg.\<close>, a tab, \<open>x yzabcdefg\<close> with size 12 a period followed by a
  whitespace character (a tab) lies at position 7, strictly past \<open>0 + 12 div 2\<close> and
  before the candidate end 12, and no paragraph or line break occurs; the chunk
  nevertheless ends at 11, just past the space at position 10, and not at \<open>7 + 2\<close>.
\<close>

theorem chunk_end_period_tab:
  "candidate_end \<lparr>chunk_size = 12, chunk_overlap = 0\<rparr>
     [97, 98, 99, 100, 101, 102, 103, 46, 9, 120, 32, 121, 122, 97, 98, 99, 100, 101, 102, 103] 0 = 12 \<and>
   [97, 98, 99, 100, 101, 102, 103, 46, 9, 120, 32, 121, 122, 97, 98, 99, 100, 101, 102, 103] ! 7 = (46::nat) \<and>
   is_space ([97, 98, 99, 100, 101, 102, 103, 46, 9, 120, 32, 121, 122, 97, 98, 99, 100, 101, 102, 103] ! 8) \<and>
   (0::int) + chunk_size \<lparr>chunk_size = 12, chunk_overlap = 0\<rparr> div 2 < 7 \<and>
   none_qualifying \<lparr>chunk_size = 12, chunk_overlap = 0\<rparr>
     [97, 98, 99, 100, 101, 102, 103, 46, 9, 120, 32, 121, 122, 97, 98, 99, 100, 101, 102, 103] 0 [10, 10] \<and>
   none_qualifying \<lparr>chunk_size = 12, chunk_overlap = 0\<rparr>
     [97, 98, 99, 100, 101, 102, 103, 46, 9, 120, 32, 121, 122, 97, 98, 99, 100, 101, 102, 103] 0 [10] \<and>
   chunk_end \<lparr>chunk_size = 12, chunk_overlap = 0\<rparr>
     [97, 98, 99, 100, 101, 102, 103, 46, 9, 120, 32, 121, 122, 97, 98, 99, 100, 101, 102, 103] 0 = 11 \<and>
   (11::int) \<noteq> 7 + 2"
  by (simp add: boundary_eval is_space_def chunk_end_def rfind_def adjust_index_def Let_def)

text \<open>
  A cursor below zero. With size 10 and overlap 9 the first chunk of
  \<open>abcdef ghijklmnopqrst\<close> ends at 7, so the cursor becomes \<open>-2\<close>. The slice
  \<open>text[-2:8]\<close> then counts \<open>-2\<close> from the end of the text: \<open>rfind\<close> searches an empty
  window, the space at position 6 is not seen, the chunk end is the candidate end 8 and
  the chunk emitted is empty.
\<close>

lemma chunk_end_negative_start:
  "chunk_trace 2 \<lparr>chunk_size = 10, chunk_overlap = 9\<rparr>
     [97, 98, 99, 100, 101, 102, 32, 103, 104, 105, 106, 107, 108, 109, 110, 111, 112, 113, 114, 115, 116] 0 []
     = (False, - 1, [[97, 98, 99, 100, 101, 102], []]) \<and>
   last_qualifying \<lparr>chunk_size = 10, chunk_overlap = 9\<rparr>
     [97, 98, 99, 100, 101, 102, 32, 103, 104, 105, 106, 107, 108, 109, 110, 111, 112, 113, 114, 115, 116] (- 2) [32] 6 \<and>
   chunk_end \<lparr>chunk_size = 10, chunk_overlap = 9\<rparr>
     [97, 98, 99, 100, 101, 102, 32, 103, 104, 105, 106, 107, 108, 109, 110, 111, 112, 113, 114, 115, 116] (- 2) = 8"
  by (simp add: boundary_eval is_space_def chunk_end_def rfind_def adjust_index_def Let_def
      numeral_2_eq_2 py_slice_def strip_def)

section \<open>The store: adding records\<close>

lemma map_of_setitem: "map_of (setitem k v al) = (map_of al)(k \<mapsto> v)"
  by (simp add: setitem_def update_conv')

lemma keys_setitem: "fst ` set (setitem k v al) = insert k (fst ` set al)"
  by (simp add: setitem_def dom_update)

lemma distinct_setitem: "distinct (map fst al) \<Longrightarrow> distinct (map fst (setitem k v al))"
  by (simp add: setitem_def distinct_update)

lemma store_docs_fields:
  "store_docs fmt s i docs se = (r, se') \<Longrightarrow>
     index se' = index se \<and> embedding_dim se' = embedding_dim se"
  by (induction docs arbitrary: i se) (auto simp: Let_def split: sum.splits)

lemma store_docs_ok_documents:
  "store_docs fmt s i docs se = (None, se') \<Longrightarrow> documents se' = documents se @ map doc_copy docs"
  by (induction docs arbitrary: i se) (auto simp: Let_def split: sum.splits)

lemma store_docs_ok_uids:
  "store_docs fmt s i docs se = (None, se') \<Longrightarrow> doc \<in> set docs \<Longrightarrow> \<exists>uid. unique_id fmt doc = Inr uid"
  by (induction docs arbitrary: i se) (auto simp: Let_def split: sum.splits)

lemma store_docs_ok_keys:
  "store_docs fmt s i docs se = (None, se') \<Longrightarrow>
     fst ` set (doc_ids_to_indices se') =
       fst ` set (doc_ids_to_indices se) \<union> {k. \<exists>doc \<in> set docs. unique_id fmt doc = Inr k}"
proof (induction docs arbitrary: i se)
  case Nil
  then show ?case by simp
next
  case (Cons doc docs)
  from Cons.prems obtain uid where u: "unique_id fmt doc = Inr uid"
    by (auto simp: Let_def split: sum.splits)
  let ?se1 = "se\<lparr>documents := documents se @ [doc_copy doc],
                  doc_ids_to_indices := setitem uid (s + i) (doc_ids_to_indices se)\<rparr>"
  from Cons.prems u have "store_docs fmt s (i + 1) docs ?se1 = (None, se')"
    by (simp add: Let_def)
  from Cons.IH [OF this] u show ?case by (auto simp: keys_setitem)
qed

lemma store_docs_distinct:
  "store_docs fmt s i docs se = (r, se') \<Longrightarrow> distinct (map fst (doc_ids_to_indices se)) \<Longrightarrow>
     distinct (map fst (doc_ids_to_indices se'))"
proof (induction docs arbitrary: i se)
  case Nil
  then show ?case by simp
next
  case (Cons doc docs)
  show ?case
  proof (cases "unique_id fmt doc")
    case (Inl e)
    with Cons.prems show ?thesis by (auto simp: Let_def)
  next
    case (Inr uid)
    let ?se1 = "se\<lparr>documents := documents se @ [doc_copy doc],
                    doc_ids_to_indices := setitem uid (s + i) (doc_ids_to_indices se)\<rparr>"
    from Cons.prems Inr have "store_docs fmt s (i + 1) docs ?se1 = (r, se')"
      by (simp add: Let_def)
    from Cons.IH [OF this] Cons.prems(2) show ?thesis by (simp add: distinct_setitem)
  qed
qed

lemma store_docs_ok_lookup:
  assumes "store_docs fmt s i docs se = (None, se')"
  shows "(\<forall>j < length docs. unique_id fmt (docs ! j) = Inr k \<and>
            (\<forall>j'. j < j' \<and> j' < length docs \<longrightarrow> unique_id fmt (docs ! j') \<noteq> Inr k)
            \<longrightarrow> map_of (doc_ids_to_indices se') k = Some (s + i + j)) \<and>
         ((\<forall>j < length docs. unique_id fmt (docs ! j) \<noteq> Inr k)
            \<longrightarrow> map_of (doc_ids_to_indices se') k = map_of (doc_ids_to_indices se) k)"
  using assms
proof (induction docs arbitrary: i se)
  case Nil
  then show ?case by simp
next
  case (Cons doc docs)
  from Cons.prems obtain uid where u: "unique_id fmt doc = Inr uid"
    by (auto simp: Let_def split: sum.splits)
  let ?se1 = "se\<lparr>documents := documents se @ [doc_copy doc],
                  doc_ids_to_indices := setitem uid (s + i) (doc_ids_to_indices se)\<rparr>"
  from Cons.prems u have rest: "store_docs fmt s (i + 1) docs ?se1 = (None, se')"
    by (simp add: Let_def)
  note IH = Cons.IH [OF rest]
  have a: "map_of (doc_ids_to_indices se') k = Some (s + i + j)"
    if j: "j < length (doc # docs)" and kj: "unique_id fmt ((doc # docs) ! j) = Inr k"
      and later: "\<forall>j'. j < j' \<and> j' < length (doc # docs) \<longrightarrow> unique_id fmt ((doc # docs) ! j') \<noteq> Inr k"
    for j
  proof (cases j)
    case 0
    with kj u have "uid = k" by simp
    have "\<forall>j < length docs. unique_id fmt (docs ! j) \<noteq> Inr k"
    proof (intro allI impI)
      fix j' assume "j' < length docs"
      with later [rule_format, of "Suc j'"] 0
      have "unique_id fmt ((doc # docs) ! Suc j') \<noteq> Inr k" by simp
      then show "unique_id fmt (docs ! j') \<noteq> Inr k" by simp
    qed
    with IH have "map_of (doc_ids_to_indices se') k = map_of (doc_ids_to_indices ?se1) k" by blast
    with \<open>uid = k\<close> 0 show ?thesis by (simp add: map_of_setitem)
  next
    case (Suc m)
    with j kj have m: "m < length docs" "unique_id fmt (docs ! m) = Inr k" by simp_all
    have "\<forall>j'. m < j' \<and> j' < length docs \<longrightarrow> unique_id fmt (docs ! j') \<noteq> Inr k"
    proof (intro allI impI)
      fix j' assume "m < j' \<and> j' < length docs"
      with later [rule_format, of "Suc j'"] Suc
      have "unique_id fmt ((doc # docs) ! Suc j') \<noteq> Inr k" by simp
      then show "unique_id fmt (docs ! j') \<noteq> Inr k" by simp
    qed
    with IH m have "map_of (doc_ids_to_indices se') k = Some (s + (i + 1) + m)" by blast
    with Suc show ?thesis by simp
  qed
  have b: "map_of (doc_ids_to_indices se') k = map_of (doc_ids_to_indices se) k"
    if none: "\<forall>j < length (doc # docs). unique_id fmt ((doc # docs) ! j) \<noteq> Inr k"
  proof -
    from none [rule_format, of 0] have "unique_id fmt ((doc # docs) ! 0) \<noteq> Inr k" by simp
    with u have ne: "uid \<noteq> k" by simp
    have "\<forall>j < length docs. unique_id fmt (docs ! j) \<noteq> Inr k"
    proof (intro allI impI)
      fix j' assume "j' < length docs"
      with none [rule_format, of "Suc j'"]
      have "unique_id fmt ((doc # docs) ! Suc j') \<noteq> Inr k" by simp
      then show "unique_id fmt (docs ! j') \<noteq> Inr k" by simp
    qed
    with IH have "map_of (doc_ids_to_indices se') k = map_of (doc_ids_to_indices ?se1) k" by blast
    with ne show ?thesis by (simp add: map_of_setitem)
  qed
  from a b show ?case by blast
qed

text \<open>Where the loop fails.\<close>

lemma store_docs_fail:
  "store_docs fmt s i docs se = (Some e, se') \<Longrightarrow>
     \<exists>j < length docs. unique_id fmt (docs ! j) = Inl e \<and>
       (\<forall>doc \<in> set (take j docs). \<exists>uid. unique_id fmt doc = Inr uid) \<and>
       documents se' = documents se @ map doc_copy (take (Suc j) docs) \<and>
       fst (store_docs fmt s i (take j docs) se) = None \<and>
       doc_ids_to_indices se' = doc_ids_to_indices (snd (store_docs fmt s i (take j docs) se))"
proof (induction docs arbitrary: i se)
  case Nil
  then show ?case by simp
next
  case (Cons doc docs)
  show ?case
  proof (cases "unique_id fmt doc")
    case (Inl e')
    with Cons.prems have "e' = e" "se' = se\<lparr>documents := documents se @ [doc_copy doc]\<rparr>"
      by (auto simp: Let_def)
    with Inl show ?thesis by (intro exI [of _ 0]) simp
  next
    case (Inr uid)
    let ?se1 = "se\<lparr>documents := documents se @ [doc_copy doc],
                    doc_ids_to_indices := setitem uid (s + i) (doc_ids_to_indices se)\<rparr>"
    from Cons.prems Inr have "store_docs fmt s (i + 1) docs ?se1 = (Some e, se')"
      by (simp add: Let_def)
    from Cons.IH [OF this] obtain j where j: "j < length docs" "unique_id fmt (docs ! j) = Inl e"
      "\<forall>doc \<in> set (take j docs). \<exists>uid. unique_id fmt doc = Inr uid"
      "documents se' = documents ?se1 @ map doc_copy (take (Suc j) docs)"
      "fst (store_docs fmt s (i + 1) (take j docs) ?se1) = None"
      "doc_ids_to_indices se' = doc_ids_to_indices (snd (store_docs fmt s (i + 1) (take j docs) ?se1))"
      by blast
    with Inr show ?thesis by (intro exI [of _ "Suc j"]) (simp add: Let_def)
  qed
qed

lemma embeddings_of_getitem:
  "embeddings_of docs = Inr vs \<Longrightarrow> map (\<lambda>doc. getitem doc ''embedding'') docs = map Inr vs"
  by (induction docs arbitrary: vs) (auto split: sum.splits)

lemma the_vec_Some: "the_vec v = Some x \<longleftrightarrow> v = PVec x"
  by (cases v) auto

lemma as_matrix_PVec: "as_matrix vs = Inr m \<Longrightarrow> vs = map PVec m"
proof -
  assume a: "as_matrix vs = Inr m"
  then have m: "m = map (\<lambda>v. the (the_vec v)) vs" and all: "\<forall>v \<in> set vs. the_vec v \<noteq> None"
    by (auto simp: as_matrix_def list_all_iff split: if_splits)
  have "map PVec (map (\<lambda>v. the (the_vec v)) vs) = vs"
    using all by (induction vs) (auto simp: the_vec_Some)
  with m show ?thesis by simp
qed

lemma index_add_ok:
  "index_add ix m = Inr ix' \<Longrightarrow> xb ix' = xb ix @ m \<and> dim ix' = dim ix"
  by (auto simp: index_add_def split: if_splits)

lemma add_documents_ok:
  assumes "add_documents fmt se docs = (None, se')" and "docs \<noteq> []"
  shows "\<exists>m ix. map (\<lambda>doc. getitem doc ''embedding'') docs = map (\<lambda>v. Inr (PVec v)) m \<and>
           index_add (index se) m = Inr ix \<and>
           store_docs fmt (length (documents se)) 0 docs (se\<lparr>index := ix\<rparr>) = (None, se')"
proof -
  from assms obtain vs m ix where 1: "embeddings_of docs = Inr vs" and 2: "as_matrix vs = Inr m"
    and 3: "index_add (index se) m = Inr ix"
    and 4: "store_docs fmt (length (documents se)) 0 docs (se\<lparr>index := ix\<rparr>) = (None, se')"
    by (auto simp: add_documents_def Let_def split: sum.splits)
  from embeddings_of_getitem [OF 1] as_matrix_PVec [OF 2]
  have "map (\<lambda>doc. getitem doc ''embedding'') docs = map (\<lambda>v. Inr (PVec v)) m" by simp
  with 3 4 show ?thesis by blast
qed

lemma add_documents_fail:
  assumes "add_documents fmt se docs = (Some e, se')"
  shows "se' = se \<or>
         (\<exists>m ix. index_add (index se) m = Inr ix \<and> length m = length docs \<and>
            store_docs fmt (length (documents se)) 0 docs (se\<lparr>index := ix\<rparr>) = (Some e, se'))"
proof -
  have len: "length m = length docs" if "embeddings_of docs = Inr vs" "as_matrix vs = Inr m" for vs m
    using arg_cong [OF embeddings_of_getitem [OF that(1)], of length] as_matrix_PVec [OF that(2)]
    by simp
  from assms len show ?thesis
    by (auto simp: add_documents_def Let_def split: sum.splits if_splits)
qed

text \<open>Well-formed batches are accepted.\<close>

lemma embeddings_of_well_formed:
  "list_all (well_formed fmt n) docs \<Longrightarrow>
     \<exists>m. embeddings_of docs = Inr (map PVec m) \<and> list_all (\<lambda>v. length v = n) m"
proof (induction docs)
  case Nil
  show ?case by (intro exI [of _ "[]"]) simp
next
  case (Cons doc docs)
  then obtain m where m: "embeddings_of docs = Inr (map PVec m)" "list_all (\<lambda>v. length v = n) m"
    by auto
  from Cons.prems obtain v where v: "getitem doc ''embedding'' = Inr (PVec v)" "length v = n"
    by (auto simp: well_formed_def split: sum.splits pyval.splits)
  with m show ?case by (intro exI [of _ "v # m"]) simp
qed

lemma as_matrix_same_length:
  "list_all (\<lambda>v. length v = n) m \<Longrightarrow> as_matrix (map PVec m) = Inr m"
  by (cases m) (auto simp: as_matrix_def list_all_iff comp_def)

lemma well_formed_unique_id: "well_formed fmt n doc \<Longrightarrow> \<exists>uid. unique_id fmt doc = Inr uid"
  by (cases "unique_id fmt doc") (auto simp: well_formed_def)

lemma store_docs_total:
  "\<forall>doc \<in> set docs. \<exists>uid. unique_id fmt doc = Inr uid \<Longrightarrow> fst (store_docs fmt s i docs se) = None"
  by (induction docs arbitrary: i se) (auto simp: Let_def)

lemma add_documents_well_formed:
  assumes "list_all (well_formed fmt (dim (index se))) docs"
  shows "fst (add_documents fmt se docs) = None"
proof (cases "docs = []")
  case True
  then show ?thesis by (simp add: add_documents_def)
next
  case False
  from embeddings_of_well_formed [OF assms] obtain m where
    m: "embeddings_of docs = Inr (map PVec m)" "list_all (\<lambda>v. length v = dim (index se)) m" by blast
  have u: "\<forall>doc \<in> set docs. \<exists>uid. unique_id fmt doc = Inr uid"
    using assms well_formed_unique_id by (auto simp: list_all_iff)
  show ?thesis
    using False m as_matrix_same_length [OF m(2)] store_docs_total [OF u]
    by (simp add: add_documents_def index_add_def Let_def)
qed

lemma store_inv_add_documents:
  assumes inv: "store_inv fmt n se added" and add: "add_documents fmt se docs = (None, se')"
  shows "store_inv fmt n se' (added @ docs)"
proof (cases "docs = []")
  case True
  with add inv show ?thesis by (simp add: add_documents_def)
next
  case False
  from add_documents_ok [OF add False] obtain m ix where
    emb: "map (\<lambda>doc. getitem doc ''embedding'') docs = map (\<lambda>v. Inr (PVec v)) m"
    and ix: "index_add (index se) m = Inr ix"
    and st: "store_docs fmt (length (documents se)) 0 docs (se\<lparr>index := ix\<rparr>) = (None, se')"
    by blast
  from store_docs_fields [OF st] index_add_ok [OF ix]
  have i: "xb (index se') = xb (index se) @ m" "dim (index se') = dim (index se)" by simp_all
  from store_docs_ok_documents [OF st] have d: "documents se' = documents se @ map doc_copy docs"
    by simp
  from store_docs_ok_keys [OF st]
  have k: "fst ` set (doc_ids_to_indices se') =
       fst ` set (doc_ids_to_indices se) \<union> {k. \<exists>doc \<in> set docs. unique_id fmt doc = Inr k}"
    by simp
  from store_docs_distinct [OF st] inv have dk: "distinct (map fst (doc_ids_to_indices se'))"
    by (simp add: store_inv_def)
  from store_docs_ok_uids [OF st] have u: "\<forall>doc \<in> set docs. \<exists>uid. unique_id fmt doc = Inr uid"
    by blast
  from inv i d k dk u emb show ?thesis
    unfolding store_inv_def by (auto simp: )
qed

lemma add_all_inv:
  "store_inv fmt n se added \<Longrightarrow> add_all fmt se batches = (None, se') \<Longrightarrow>
     store_inv fmt n se' (added @ concat batches)"
proof (induction batches arbitrary: se added)
  case Nil
  then show ?case by simp
next
  case (Cons docs batches)
  from Cons.prems(2) obtain se1 where 1: "add_documents fmt se docs = (None, se1)"
    and 2: "add_all fmt se1 batches = (None, se')"
    by (auto split: prod.splits option.splits)
  from Cons.IH [OF store_inv_add_documents [OF Cons.prems(1) 1] 2] show ?case by simp
qed

lemma add_all_well_formed:
  "dim (index se) = n \<Longrightarrow> list_all (list_all (well_formed fmt n)) batches \<Longrightarrow>
     fst (add_all fmt se batches) = None"
proof (induction batches arbitrary: se)
  case Nil
  then show ?case by simp
next
  case (Cons docs batches)
  from Cons.prems have w: "list_all (well_formed fmt (dim (index se))) docs" by simp
  from add_documents_well_formed [OF w] obtain se1 where 1: "add_documents fmt se docs = (None, se1)"
    by (cases "add_documents fmt se docs") auto
  have "dim (index se1) = n"
  proof (cases "docs = []")
    case True
    with 1 Cons.prems(1) show ?thesis by (simp add: add_documents_def)
  next
    case False
    from add_documents_ok [OF 1 False] obtain m ix where
      "index_add (index se) m = Inr ix"
      "store_docs fmt (length (documents se)) 0 docs (se\<lparr>index := ix\<rparr>) = (None, se1)" by blast
    with store_docs_fields [of fmt "length (documents se)" 0 docs "se\<lparr>index := ix\<rparr>" None se1]
      index_add_ok [of "index se" m ix] Cons.prems(1) show ?thesis
      by simp
  qed
  from Cons.IH [OF this] Cons.prems(2) 1 show ?case by simp
qed

lemma store_inv_counts:
  assumes "store_inv fmt n se added"
  shows "length (documents se) = ntotal (index se)"
    and "length (doc_ids_to_indices se) = card (set (map (unique_id fmt) added))"
    and "length (doc_ids_to_indices se) \<le> length (documents se)"
    and "distinct (map (unique_id fmt) added) \<Longrightarrow> length (doc_ids_to_indices se) = length (documents se)"
proof -
  from assms have eq: "map (\<lambda>doc. getitem doc ''embedding'') added = map (\<lambda>v. Inr (PVec v)) (xb (index se))"
    by (simp add: store_inv_def)
  from arg_cong [OF eq, of length] have "length added = length (xb (index se))" by simp
  with assms show 1: "length (documents se) = ntotal (index se)"
    by (simp add: store_inv_def ntotal_def)
  let ?K = "{k. \<exists>doc \<in> set added. unique_id fmt doc = Inr k}"
  from assms have u: "\<forall>doc \<in> set added. \<exists>uid. unique_id fmt doc = Inr uid"
    by (simp add: store_inv_def)
  have img: "Inr ` ?K = set (map (unique_id fmt) added)"
  proof
    show "Inr ` ?K \<subseteq> set (map (unique_id fmt) added)" by force
    show "set (map (unique_id fmt) added) \<subseteq> Inr ` ?K" using u by force
  qed
  have "card (Inr ` ?K :: (pyerr + string) set) = card ?K" by (rule card_image) simp
  with img have c: "card (set (map (unique_id fmt) added)) = card ?K" by simp
  from assms have dk: "distinct (map fst (doc_ids_to_indices se))"
    and ks: "set (map fst (doc_ids_to_indices se)) = ?K"
    by (simp_all add: store_inv_def)
  from distinct_card [OF dk] ks have "length (doc_ids_to_indices se) = card ?K" by simp
  with c show 2: "length (doc_ids_to_indices se) = card (set (map (unique_id fmt) added))"
    by simp
  have "card (set (map (unique_id fmt) added)) \<le> length (map (unique_id fmt) added)"
    by (rule card_length)
  with 2 assms show "length (doc_ids_to_indices se) \<le> length (documents se)"
    by (simp add: store_inv_def)
  show "length (doc_ids_to_indices se) = length (documents se)"
    if "distinct (map (unique_id fmt) added)"
    using 2 assms distinct_card [OF that] by (simp add: store_inv_def)
qed

text \<open>
  Claim C3, as amended. After any sequence of \<open>add\<close> calls on a fresh store, each with
  well-formed records of the configured dimension, every call returns normally, the number
  of stored records equals the number of vectors, and the Nth record and the Nth vector come
  from the same added record. The identity index has one entry per distinct identity key:
  never more entries than records, and as many as records exactly when no key was added
  twice.
\<close>

theorem add_all_counts:
  assumes new: "SearchEngine n None None fs = Inr se0"
    and wf: "list_all (list_all (well_formed fmt n)) batches"
  shows "\<exists>se. add_all fmt se0 batches = (None, se) \<and>
           length (documents se) = ntotal (index se) \<and>
           documents se = map doc_copy (concat batches) \<and>
           map (\<lambda>doc. getitem doc ''embedding'') (concat batches) = map (\<lambda>v. Inr (PVec v)) (xb (index se)) \<and>
           length (doc_ids_to_indices se) = card (set (map (unique_id fmt) (concat batches))) \<and>
           length (doc_ids_to_indices se) \<le> length (documents se) \<and>
           (distinct (map (unique_id fmt) (concat batches))
              \<longrightarrow> length (doc_ids_to_indices se) = length (documents se))"
proof -
  from new have se0: "se0 = \<lparr>embedding_dim = n, index = IndexFlatL2 n, documents = [],
      doc_ids_to_indices = []\<rparr>"
    by (simp add: SearchEngine_def)
  then have inv0: "store_inv fmt n se0 []" by (simp add: store_inv_def IndexFlatL2_def)
  have "dim (index se0) = n" by (simp add: se0 IndexFlatL2_def)
  from add_all_well_formed [OF this wf] obtain se where run: "add_all fmt se0 batches = (None, se)"
    by (cases "add_all fmt se0 batches") auto
  from add_all_inv [OF inv0 run] have inv: "store_inv fmt n se (concat batches)" by simp
  from store_inv_counts [OF inv] inv run show ?thesis by (auto simp: store_inv_def)
qed

text \<open>
  Claim C10. \<open>add\<close> only appends to the record list, whether it returns or raises. When it
  returns, the records of the batch stand after the old ones, in order; every key of the
  batch is mapped to the position of the last record of the batch that carries it, also
  when an earlier record has the same key; every other key keeps its entry.
\<close>

theorem add_documents_appends:
  assumes "add_documents fmt se docs = (r, se')"
  shows "(\<exists>new. documents se' = documents se @ new) \<and>
         (r = None \<longrightarrow>
            documents se' = documents se @ map doc_copy docs \<and>
            (\<forall>j k. j < length docs \<and> unique_id fmt (docs ! j) = Inr k \<and>
                (\<forall>j'. j < j' \<and> j' < length docs \<longrightarrow> unique_id fmt (docs ! j') \<noteq> Inr k)
                \<longrightarrow> map_of (doc_ids_to_indices se') k = Some (length (documents se) + j)) \<and>
            (\<forall>k. (\<forall>j < length docs. unique_id fmt (docs ! j) \<noteq> Inr k)
                \<longrightarrow> map_of (doc_ids_to_indices se') k = map_of (doc_ids_to_indices se) k))"
proof (cases r)
  case (Some e)
  from add_documents_fail [OF assms [unfolded Some]] have "\<exists>new. documents se' = documents se @ new"
  proof
    assume "se' = se"
    then show ?thesis by simp
  next
    assume "\<exists>m ix. index_add (index se) m = Inr ix \<and> length m = length docs \<and>
            store_docs fmt (length (documents se)) 0 docs (se\<lparr>index := ix\<rparr>) = (Some e, se')"
    then obtain ix where "store_docs fmt (length (documents se)) 0 docs (se\<lparr>index := ix\<rparr>) = (Some e, se')"
      by blast
    from store_docs_fail [OF this] show ?thesis by auto
  qed
  with Some show ?thesis by simp
next
  case None
  show ?thesis
  proof (cases "docs = []")
    case True
    with assms None show ?thesis by (simp add: add_documents_def)
  next
    case False
    from add_documents_ok [OF assms [unfolded None] False] obtain ix where
      st: "store_docs fmt (length (documents se)) 0 docs (se\<lparr>index := ix\<rparr>) = (None, se')" by blast
    from store_docs_ok_documents [OF st] have d: "documents se' = documents se @ map doc_copy docs"
      by simp
    have l: "(\<forall>j < length docs. unique_id fmt (docs ! j) = Inr k \<and>
            (\<forall>j'. j < j' \<and> j' < length docs \<longrightarrow> unique_id fmt (docs ! j') \<noteq> Inr k)
            \<longrightarrow> map_of (doc_ids_to_indices se') k = Some (length (documents se) + j)) \<and>
         ((\<forall>j < length docs. unique_id fmt (docs ! j) \<noteq> Inr k)
            \<longrightarrow> map_of (doc_ids_to_indices se') k = map_of (doc_ids_to_indices se) k)" for k
      using store_docs_ok_lookup [OF st, of k] by simp
    from d l show ?thesis by blast
  qed
qed

text \<open>
  Claim C4, as amended. When \<open>add\<close> fails while it collects the embeddings (a record
  without \<open>embedding\<close>), turns them into a matrix (embeddings that are not vectors of one
  length) or hands them to the vector index (a wrong dimension), it raises that error and
  the store is left exactly as it was, whatever else the records lack. When these three
  steps go through and \<open>add\<close> raises, it raises on a record \<open>j\<close> whose metadata give no
  identity key: the vector index then holds every vector of the batch after its old ones,
  the record list the records up to and including \<open>j\<close>, and the identity index is the one
  the loop has built from the records before \<open>j\<close>. A raising \<open>add\<close> changes the store in
  this second case only.
\<close>

theorem add_documents_failure:
  "(docs \<noteq> [] \<and> embeddings_of docs = Inl e \<longrightarrow> add_documents fmt se docs = (Some e, se)) \<and>
   (docs \<noteq> [] \<and> embeddings_of docs = Inr vs \<and> as_matrix vs = Inl e
      \<longrightarrow> add_documents fmt se docs = (Some e, se)) \<and>
   (docs \<noteq> [] \<and> embeddings_of docs = Inr vs \<and> as_matrix vs = Inr m \<and>
    index_add (index se) m = Inl e
      \<longrightarrow> add_documents fmt se docs = (Some e, se)) \<and>
   (embeddings_of docs = Inr vs \<and> as_matrix vs = Inr m \<and> index_add (index se) m = Inr ix \<and>
    add_documents fmt se docs = (Some e, se')
      \<longrightarrow> (\<exists>j < length docs.
             unique_id fmt (docs ! j) = Inl e \<and>
             (\<forall>doc \<in> set (take j docs). \<exists>uid. unique_id fmt doc = Inr uid) \<and>
             map (\<lambda>doc. getitem doc ''embedding'') docs = map (\<lambda>v. Inr (PVec v)) m \<and>
             index se' = (index se)\<lparr>xb := xb (index se) @ m\<rparr> \<and>
             embedding_dim se' = embedding_dim se \<and>
             documents se' = documents se @ map doc_copy (take (Suc j) docs) \<and>
             doc_ids_to_indices se' =
               doc_ids_to_indices
                 (snd (store_docs fmt (length (documents se)) 0 (take j docs)
                         (se\<lparr>index := ix\<rparr>))) \<and>
             fst ` set (doc_ids_to_indices se') =
               fst ` set (doc_ids_to_indices se) \<union>
               {k. \<exists>doc \<in> set (take j docs). unique_id fmt doc = Inr k})) \<and>
   (add_documents fmt se docs = (Some e, se') \<and> se' \<noteq> se
      \<longrightarrow> (\<exists>vs m ix. embeddings_of docs = Inr vs \<and> as_matrix vs = Inr m \<and>
             index_add (index se) m = Inr ix))"
proof (intro conjI impI)
  assume "docs \<noteq> [] \<and> embeddings_of docs = Inl e"
  then show "add_documents fmt se docs = (Some e, se)" by (simp add: add_documents_def)
next
  assume "docs \<noteq> [] \<and> embeddings_of docs = Inr vs \<and> as_matrix vs = Inl e"
  then show "add_documents fmt se docs = (Some e, se)" by (simp add: add_documents_def)
next
  assume "docs \<noteq> [] \<and> embeddings_of docs = Inr vs \<and> as_matrix vs = Inr m \<and>
    index_add (index se) m = Inl e"
  then show "add_documents fmt se docs = (Some e, se)" by (simp add: add_documents_def)
next
  assume a: "add_documents fmt se docs = (Some e, se') \<and> se' \<noteq> se"
  then show "\<exists>vs m ix. embeddings_of docs = Inr vs \<and> as_matrix vs = Inr m \<and>
             index_add (index se) m = Inr ix"
    by (auto simp: add_documents_def Let_def split: if_splits sum.splits)
next
  assume a: "embeddings_of docs = Inr vs \<and> as_matrix vs = Inr m \<and> index_add (index se) m = Inr ix \<and>
    add_documents fmt se docs = (Some e, se')"
  let ?se1 = "se\<lparr>index := ix\<rparr>"
  let ?s = "length (documents se)"
  from a have st: "store_docs fmt ?s 0 docs ?se1 = (Some e, se')"
    by (auto simp: add_documents_def Let_def split: if_splits)
  from a have emb: "map (\<lambda>doc. getitem doc ''embedding'') docs = map (\<lambda>v. Inr (PVec v)) m"
    using embeddings_of_getitem [of docs vs] as_matrix_PVec [of vs m] by simp
  from store_docs_fail [OF st] obtain j where j: "j < length docs"
    "unique_id fmt (docs ! j) = Inl e"
    "\<forall>doc \<in> set (take j docs). \<exists>uid. unique_id fmt doc = Inr uid"
    "documents se' = documents ?se1 @ map doc_copy (take (Suc j) docs)"
    "fst (store_docs fmt ?s 0 (take j docs) ?se1) = None"
    "doc_ids_to_indices se' = doc_ids_to_indices (snd (store_docs fmt ?s 0 (take j docs) ?se1))"
    by blast
  obtain se2 where pre: "store_docs fmt ?s 0 (take j docs) ?se1 = (None, se2)"
    using j(5) by (cases "store_docs fmt ?s 0 (take j docs) ?se1") auto
  from store_docs_ok_keys [OF pre] j(6) pre
  have keys: "fst ` set (doc_ids_to_indices se') =
          fst ` set (doc_ids_to_indices se) \<union>
          {k. \<exists>doc \<in> set (take j docs). unique_id fmt doc = Inr k}" by simp
  from store_docs_fields [OF st] a index_add_ok [of "index se" m ix]
  have ix: "index se' = (index se)\<lparr>xb := xb (index se) @ m\<rparr>" "embedding_dim se' = embedding_dim se"
    by (auto simp: index_add_def split: if_splits)
  from j(1-4) j(6) emb ix keys
  show "\<exists>j < length docs.
             unique_id fmt (docs ! j) = Inl e \<and>
             (\<forall>doc \<in> set (take j docs). \<exists>uid. unique_id fmt doc = Inr uid) \<and>
             map (\<lambda>doc. getitem doc ''embedding'') docs = map (\<lambda>v. Inr (PVec v)) m \<and>
             index se' = (index se)\<lparr>xb := xb (index se) @ m\<rparr> \<and>
             embedding_dim se' = embedding_dim se \<and>
             documents se' = documents se @ map doc_copy (take (Suc j) docs) \<and>
             doc_ids_to_indices se' =
               doc_ids_to_indices
                 (snd (store_docs fmt (length (documents se)) 0 (take j docs)
                         (se\<lparr>index := ix\<rparr>))) \<and>
             fst ` set (doc_ids_to_indices se') =
               fst ` set (doc_ids_to_indices se) \<union>
               {k. \<exists>doc \<in> set (take j docs). unique_id fmt doc = Inr k}"
    by (intro exI [of _ j]) simp
qed

lemmas store_eval = add_documents_def as_matrix_def index_add_def unique_id_def getitem_def
  doc_copy_def setitem_def str_int_def IndexFlatL2_def Let_def

text \<open>
  Claim C3 as stated fails: adding a well-formed record twice gives two records and two
  vectors, and one entry in the identity index.
\<close>

theorem add_same_record_twice:
  "well_formed (\<lambda>v. []) 1
     [(''text'', PStr ''t''), (''metadata'', PDict [(''doc_id'', PStr ''a''), (''chunk_id'', PInt 0)]),
      (''embedding'', PVec [0])] \<and>
   add_all (\<lambda>v. [])
     \<lparr>embedding_dim = 1, index = IndexFlatL2 1, documents = [], doc_ids_to_indices = []\<rparr>
     [[[(''text'', PStr ''t''), (''metadata'', PDict [(''doc_id'', PStr ''a''), (''chunk_id'', PInt 0)]),
        (''embedding'', PVec [0])]],
      [[(''text'', PStr ''t''), (''metadata'', PDict [(''doc_id'', PStr ''a''), (''chunk_id'', PInt 0)]),
        (''embedding'', PVec [0])]]]
   = (None,
      \<lparr>embedding_dim = 1, index = \<lparr>dim = 1, xb = [[0], [0]]\<rparr>,
       documents =
         [[(''text'', PStr ''t''), (''metadata'', PDict [(''doc_id'', PStr ''a''), (''chunk_id'', PInt 0)])],
          [(''text'', PStr ''t''), (''metadata'', PDict [(''doc_id'', PStr ''a''), (''chunk_id'', PInt 0)])]],
       doc_ids_to_indices = [(''a_0'', 1)]\<rparr>)"
  by (simp add: store_eval well_formed_def)

theorem add_all_counts_witness:
  "\<exists>se. add_all (\<lambda>v. [])
           \<lparr>embedding_dim = 1, index = IndexFlatL2 1, documents = [], doc_ids_to_indices = []\<rparr>
           [[[(''text'', PStr ''t''), (''metadata'', PDict [(''doc_id'', PStr ''a''), (''chunk_id'', PInt 0)]),
              (''embedding'', PVec [0])]],
            [[(''text'', PStr ''t''), (''metadata'', PDict [(''doc_id'', PStr ''a''), (''chunk_id'', PInt 1)]),
              (''embedding'', PVec [5])]]] = (None, se) \<and>
         length (documents se) = ntotal (index se) \<and>
         length (doc_ids_to_indices se) \<le> length (documents se)"
proof -
  let ?s0 = "\<lparr>embedding_dim = 1, index = IndexFlatL2 1, documents = [], doc_ids_to_indices = []\<rparr>"
  let ?b = "[[[(''text'', PStr ''t''), (''metadata'', PDict [(''doc_id'', PStr ''a''), (''chunk_id'', PInt 0)]),
              (''embedding'', PVec [0])]],
            [[(''text'', PStr ''t''), (''metadata'', PDict [(''doc_id'', PStr ''a''), (''chunk_id'', PInt 1)]),
              (''embedding'', PVec [5])]]]"
  have new: "SearchEngine 1 None None (\<lambda>path. None) = Inr ?s0" by (simp add: SearchEngine_def)
  have wf: "list_all (list_all (well_formed (\<lambda>v. []) 1)) ?b"
    by (simp add: well_formed_def store_eval)
  from add_all_counts [OF new wf] show ?thesis by blast
qed

text \<open>
  Claim C4 as stated fails: a record with an embedding and no metadata makes \<open>add\<close> raise
  \<open>KeyError\<close> after the vector and the record have been appended.
\<close>

theorem add_documents_partial_append:
  "add_documents (\<lambda>v. [])
     \<lparr>embedding_dim = 1, index = IndexFlatL2 1, documents = [], doc_ids_to_indices = []\<rparr>
     [[(''text'', PStr ''t''), (''embedding'', PVec [0])]]
   = (Some KeyError,
      \<lparr>embedding_dim = 1, index = \<lparr>dim = 1, xb = [[0]]\<rparr>,
       documents = [[(''text'', PStr ''t'')]], doc_ids_to_indices = []\<rparr>)"
  by (simp add: store_eval)

theorem add_documents_failure_witness:
  "add_documents (\<lambda>v. [])
     \<lparr>embedding_dim = 1, index = IndexFlatL2 1, documents = [], doc_ids_to_indices = []\<rparr>
     [[(''text'', PStr ''t'')]]
   = (Some KeyError,
      \<lparr>embedding_dim = 1, index = IndexFlatL2 1, documents = [], doc_ids_to_indices = []\<rparr>) \<and>
   add_documents (\<lambda>v. [])
     \<lparr>embedding_dim = 1, index = IndexFlatL2 1, documents = [], doc_ids_to_indices = []\<rparr>
     [[(''text'', PStr ''t''), (''embedding'', PVec [0, 0])]]
   = (Some AssertionError,
      \<lparr>embedding_dim = 1, index = IndexFlatL2 1, documents = [], doc_ids_to_indices = []\<rparr>) \<and>
   (\<exists>j < length [[(''text'', PStr ''t''), (''embedding'', PVec [0::real])]].
      unique_id (\<lambda>v. []) ([[(''text'', PStr ''t''), (''embedding'', PVec [0])]] ! j) = Inl KeyError \<and>
      index \<lparr>embedding_dim = 1, index = \<lparr>dim = 1, xb = [[0]]\<rparr>,
         documents = [[(''text'', PStr ''t'')]], doc_ids_to_indices = []\<rparr> =
        (index \<lparr>embedding_dim = 1, index = IndexFlatL2 1, documents = [],
          doc_ids_to_indices = []\<rparr>)\<lparr>xb := xb (index \<lparr>embedding_dim = 1, index = IndexFlatL2 1,
          documents = [], doc_ids_to_indices = []\<rparr>) @ [[0]]\<rparr>)"
proof -
  let ?s0 = "\<lparr>embedding_dim = 1, index = IndexFlatL2 1, documents = [], doc_ids_to_indices = []\<rparr>"
  let ?s1 = "\<lparr>embedding_dim = 1, index = \<lparr>dim = 1, xb = [[0]]\<rparr>,
       documents = [[(''text'', PStr ''t'')]], doc_ids_to_indices = []\<rparr>"
  let ?docs = "[[(''text'', PStr ''t''), (''embedding'', PVec [0])]]"
  let ?f = "\<lambda>v::pyval. [] :: string"
  have p1: "[[(''text'', PStr ''t'')]] \<noteq> [] \<and> embeddings_of [[(''text'', PStr ''t'')]] = Inl KeyError"
    by (simp add: getitem_def)
  note t1 = add_documents_failure [of "[[(''text'', PStr ''t'')]]" KeyError ?f ?s0,
      THEN conjunct1, rule_format, OF p1]
  let ?d2 = "[[(''text'', PStr ''t''), (''embedding'', PVec [0, 0])]]"
  have p2: "?d2 \<noteq> [] \<and> embeddings_of ?d2 = Inr [PVec [0, 0]] \<and> as_matrix [PVec [0, 0]] = Inr [[0, 0]] \<and>
      index_add (index ?s0) [[0, 0]] = Inl AssertionError"
    by (simp add: getitem_def as_matrix_def index_add_def IndexFlatL2_def)
  note t2 = add_documents_failure [of ?d2 AssertionError ?f ?s0 "[PVec [0, 0]]" "[[0, 0]]",
      THEN conjunct2, THEN conjunct2, THEN conjunct1, rule_format, OF p2]
  have p3: "embeddings_of ?docs = Inr [PVec [0]] \<and> as_matrix [PVec [0]] = Inr [[0]] \<and>
      index_add (index ?s0) [[0]] = Inr \<lparr>dim = 1, xb = [[0]]\<rparr> \<and>
      add_documents ?f ?s0 ?docs = (Some KeyError, ?s1)"
    by (simp add: store_eval)
  note t3 = add_documents_failure [of ?docs KeyError ?f ?s0 "[PVec [0]]" "[[0]]" "\<lparr>dim = 1, xb = [[0]]\<rparr>" ?s1,
      THEN conjunct2, THEN conjunct2, THEN conjunct2, THEN conjunct1, rule_format, OF p3]
  from t3 obtain j where j: "j < length ?docs" "unique_id ?f (?docs ! j) = Inl KeyError"
    "index ?s1 = (index ?s0)\<lparr>xb := xb (index ?s0) @ [[0]]\<rparr>"
    by (elim exE conjE)
  then have 3: "\<exists>j < length ?docs. unique_id ?f (?docs ! j) = Inl KeyError \<and>
      index ?s1 = (index ?s0)\<lparr>xb := xb (index ?s0) @ [[0]]\<rparr>"
    by (intro exI [of _ j] conjI)
  show ?thesis using t1 t2 3 by (intro conjI)
qed

theorem add_documents_appends_witness:
  "add_documents (\<lambda>v. [])
     \<lparr>embedding_dim = 1, index = \<lparr>dim = 1, xb = [[0]]\<rparr>,
      documents = [[(''text'', PStr ''t''), (''metadata'', PDict [(''doc_id'', PStr ''a''), (''chunk_id'', PInt 0)])]],
      doc_ids_to_indices = [(''a_0'', 0)]\<rparr>
     [[(''text'', PStr ''u''), (''metadata'', PDict [(''doc_id'', PStr ''a''), (''chunk_id'', PInt 0)]),
       (''embedding'', PVec [3])]]
   = (None,
      \<lparr>embedding_dim = 1, index = \<lparr>dim = 1, xb = [[0], [3]]\<rparr>,
       documents =
         [[(''text'', PStr ''t''), (''metadata'', PDict [(''doc_id'', PStr ''a''), (''chunk_id'', PInt 0)])],
          [(''text'', PStr ''u''), (''metadata'', PDict [(''doc_id'', PStr ''a''), (''chunk_id'', PInt 0)])]],
       doc_ids_to_indices = [(''a_0'', 1)]\<rparr>) \<and>
   map_of (doc_ids_to_indices
      \<lparr>embedding_dim = 1, index = \<lparr>dim = 1, xb = [[0], [3]]\<rparr>,
       documents =
         [[(''text'', PStr ''t''), (''metadata'', PDict [(''doc_id'', PStr ''a''), (''chunk_id'', PInt 0)])],
          [(''text'', PStr ''u''), (''metadata'', PDict [(''doc_id'', PStr ''a''), (''chunk_id'', PInt 0)])]],
       doc_ids_to_indices = [(''a_0'', 1)]\<rparr>) ''a_0'' = Some (1 + 0)"
proof -
  let ?s1 = "\<lparr>embedding_dim = 1, index = \<lparr>dim = 1, xb = [[0]]\<rparr>,
      documents = [[(''text'', PStr ''t''), (''metadata'', PDict [(''doc_id'', PStr ''a''), (''chunk_id'', PInt 0)])]],
      doc_ids_to_indices = [(''a_0'', 0)]\<rparr>"
  let ?docs = "[[(''text'', PStr ''u''), (''metadata'', PDict [(''doc_id'', PStr ''a''), (''chunk_id'', PInt 0)]),
       (''embedding'', PVec [3])]]"
  let ?s2 = "\<lparr>embedding_dim = 1, index = \<lparr>dim = 1, xb = [[0], [3]]\<rparr>,
       documents =
         [[(''text'', PStr ''t''), (''metadata'', PDict [(''doc_id'', PStr ''a''), (''chunk_id'', PInt 0)])],
          [(''text'', PStr ''u''), (''metadata'', PDict [(''doc_id'', PStr ''a''), (''chunk_id'', PInt 0)])]],
       doc_ids_to_indices = [(''a_0'', 1)]\<rparr>"
  have run: "add_documents (\<lambda>v. []) ?s1 ?docs = (None, ?s2)"
    by (simp add: store_eval)
  have key: "unique_id (\<lambda>v. []) (?docs ! 0) = Inr ''a_0''" by (simp add: store_eval)
  from add_documents_appends [OF run]
  have "\<forall>j k. j < length ?docs \<and> unique_id (\<lambda>v. []) (?docs ! j) = Inr k \<and>
          (\<forall>j'. j < j' \<and> j' < length ?docs \<longrightarrow> unique_id (\<lambda>v. []) (?docs ! j') \<noteq> Inr k)
          \<longrightarrow> map_of (doc_ids_to_indices ?s2) k = Some (length (documents ?s1) + j)"
    by blast
  from this [rule_format, of 0 "''a_0''"] key
  have "map_of (doc_ids_to_indices ?s2) ''a_0'' = Some (length (documents ?s1) + 0)" by simp
  with run show ?thesis by simp
qed

section \<open>The store: searching\<close>

lemma without_score_setitem: "without_score (setitem ''score'' v doc) = without_score doc"
  unfolding without_score_def setitem_def by (induction doc) auto

lemma list_index_nat: "list_index n (int i) = (if i < n then Inr i else Inl IndexError)"
  by (simp add: list_index_def)

lemma list_index_bound: "list_index n i = Inr j \<Longrightarrow> j < n"
  by (auto simp: list_index_def Let_def split: if_splits)

lemma score_loop_frame:
  "score_loop ps docs acc = (r, docs') \<Longrightarrow>
     length docs' = length docs \<and> map without_score docs' = map without_score docs"
proof (induction ps arbitrary: docs acc)
  case Nil
  then show ?case by simp
next
  case (Cons pr ps)
  obtain distance idx where pr: "pr = (distance, idx)" by (cases pr)
  show ?case
  proof (cases "idx \<noteq> - 1")
    case False
    with Cons pr show ?thesis by simp
  next
    case True
    show ?thesis
    proof (cases "list_index (length docs) idx")
      case (Inl e)
      with Cons.prems pr True show ?thesis by simp
    next
      case (Inr j)
      let ?docs1 = "docs[j := setitem ''score'' (PFloat (1 / (1 + distance))) (docs ! j)]"
      from Cons.prems pr True Inr have "score_loop ps ?docs1 (acc @ [j]) = (r, docs')" by simp
      from Cons.IH [OF this] have "length docs' = length docs"
        and "map without_score docs' = map without_score ?docs1" by simp_all
      moreover have "map without_score ?docs1 = map without_score docs"
        using list_index_bound [OF Inr]
        by (simp add: map_update without_score_setitem list_update_same_conv)
      ultimately show ?thesis by simp
    qed
  qed
qed

text \<open>What \<open>index_search\<close> returns.\<close>

lemma l2_sqr_nonneg: "0 \<le> l2_sqr x y"
  unfolding l2_sqr_def by (rule sum_list_nonneg) auto

lemma ranked_props:
  shows "sorted (map fst (ranked ix q))"
    and "distinct (map snd (ranked ix q))"
    and "length (ranked ix q) = length (xb ix)"
    and "(distance, i) \<in> set (ranked ix q) \<Longrightarrow> 0 \<le> distance \<and> i < ntotal ix"
proof -
  let ?z = "zip (map (l2_sqr q) (xb ix)) [0 ..< length (xb ix)]"
  show "sorted (map fst (ranked ix q))" by (simp add: ranked_def)
  have "map snd ?z = [0 ..< length (xb ix)]" by (simp add: map_snd_zip)
  then have "distinct (map snd ?z)" by simp
  then have "distinct ?z \<and> inj_on snd (set ?z)" by (simp only: distinct_map)
  then show "distinct (map snd (ranked ix q))"
    unfolding ranked_def by (simp add: distinct_map)
  show "length (ranked ix q) = length (xb ix)" by (simp add: ranked_def)
  show "0 \<le> distance \<and> i < ntotal ix" if "(distance, i) \<in> set (ranked ix q)"
  proof -
    from that have "(distance, i) \<in> set ?z" by (simp add: ranked_def)
    then show ?thesis
      by (auto simp: in_set_zip ntotal_def l2_sqr_nonneg)
  qed
qed

lemma index_search_result:
  assumes "index_search ix q k = Inr (distances, indices)"
  shows "zip distances indices =
           map (\<lambda>(distance, i). (distance, int i)) (take (nat k) (ranked ix q)) @
           replicate (nat k - length (take (nat k) (ranked ix q))) (FLT_MAX, - 1)"
proof -
  let ?top = "take (nat k) (ranked ix q)"
  let ?m = "nat k - length ?top"
  from assms have d: "distances = map fst ?top @ replicate ?m FLT_MAX"
    and i: "indices = map (\<lambda>(distance, i). int i) ?top @ replicate ?m (- 1)"
    by (auto simp: index_search_def ranked_def Let_def split: if_splits)
  have "zip (map fst xs) (map (\<lambda>(distance, i). int i) xs) =
          map (\<lambda>(distance, i). (distance, int i)) xs" for xs :: "(real \<times> nat) list"
    by (induction xs) auto
  then show ?thesis by (simp add: d i zip_replicate)
qed

lemma index_search_error:
  "index_search ix q k = Inl e \<Longrightarrow> e = AssertionError \<and> (length q \<noteq> dim ix \<or> k \<le> 0)"
  by (auto simp: index_search_def Let_def split: if_splits)

text \<open>The loop of \<open>search\<close>.\<close>

lemma score_loop_skip: "score_loop (replicate m (x, - 1)) docs acc = (Inr acc, docs)"
  by (induction m) simp_all

lemma score_loop_append:
  "score_loop (ps @ qs) docs acc =
     (case score_loop ps docs acc of
        (Inl e, docs') \<Rightarrow> (Inl e, docs')
      | (Inr acc', docs') \<Rightarrow> score_loop qs docs' acc')"
proof (induction ps arbitrary: docs acc)
  case Nil
  show ?case by simp
next
  case (Cons pr ps)
  obtain distance idx where pr: "pr = (distance, idx)" by (cases pr)
  show ?case unfolding pr using Cons.IH by (simp split: sum.splits)
qed

lemma score_loop_padding:
  "score_loop (ps @ replicate m (x, - 1)) docs acc = score_loop ps docs acc"
  by (cases "score_loop ps docs acc")
     (auto simp: score_loop_append score_loop_skip split: sum.splits)

lemma score_loop_writes:
  assumes "distinct (map snd tp)"
    and "score_loop (map (\<lambda>(distance, i). (distance, int i)) tp) docs acc = (Inr refs, docs')"
  shows "refs = acc @ map snd tp \<and>
         (\<forall>(distance, i) \<in> set tp. i < length docs \<and>
            docs' ! i = setitem ''score'' (PFloat (1 / (1 + distance))) (docs ! i)) \<and>
         (\<forall>j. j \<notin> snd ` set tp \<longrightarrow> docs' ! j = docs ! j)"
  using assms
proof (induction tp arbitrary: docs acc)
  case Nil
  then show ?case by auto
next
  case (Cons pr tp)
  obtain distance i where pr: "pr = (distance, i)" by (cases pr)
  from Cons.prems(1) pr have dist: "distinct (map snd tp)" and fresh: "i \<notin> snd ` set tp" by auto
  show ?case
  proof (cases "i < length docs")
    case False
    with Cons.prems(2) pr show ?thesis by (simp add: list_index_nat)
  next
    case True
    let ?docs1 = "docs[i := setitem ''score'' (PFloat (1 / (1 + distance))) (docs ! i)]"
    from Cons.prems(2) pr True
    have run: "score_loop (map (\<lambda>(distance, i). (distance, int i)) tp) ?docs1 (acc @ [i]) = (Inr refs, docs')"
      by (simp add: list_index_nat)
    from Cons.IH [OF dist run] have refs: "refs = (acc @ [i]) @ map snd tp"
      and wr: "\<forall>(distance, j) \<in> set tp. j < length ?docs1 \<and>
                docs' ! j = setitem ''score'' (PFloat (1 / (1 + distance))) (?docs1 ! j)"
      and fr: "\<forall>j. j \<notin> snd ` set tp \<longrightarrow> docs' ! j = ?docs1 ! j"
      by simp_all
    from fr fresh True have here: "docs' ! i = setitem ''score'' (PFloat (1 / (1 + distance))) (docs ! i)"
      by simp
    have rest: "j < length docs \<and> docs' ! j = setitem ''score'' (PFloat (1 / (1 + d))) (docs ! j)"
      if "(d, j) \<in> set tp" for d j
    proof -
      from that fresh have "j \<noteq> i" by force
      with wr that show ?thesis by auto
    qed
    have other: "docs' ! j = docs ! j" if "j \<notin> snd ` set (pr # tp)" for j
    proof -
      from that pr have "j \<noteq> i" "j \<notin> snd ` set tp" by auto
      with fr show ?thesis by simp
    qed
    from refs here rest other True pr show ?thesis by auto
  qed
qed

lemma search_writes:
  assumes "search se q top_k = (Inr results, se')"
  shows "\<exists>refs. distinct refs \<and> length refs \<le> nat top_k \<and>
           results = map (\<lambda>j. documents se' ! j) refs \<and>
           (\<forall>j \<in> set refs. j < length (documents se) \<and>
              (\<exists>s. documents se' ! j = setitem ''score'' (PFloat s) (documents se ! j))) \<and>
           (\<forall>j. j \<notin> set refs \<longrightarrow> documents se' ! j = documents se ! j)"
proof (cases "length (documents se) = 0")
  case True
  with assms have "results = []" "se' = se" by (simp_all add: search_def)
  then show ?thesis by (intro exI [of _ "[]"]) simp
next
  case False
  let ?k = "min top_k (int (length (documents se)))"
  from assms False obtain distances indices where
    isr: "index_search (index se) q ?k = Inr (distances, indices)"
    by (cases "index_search (index se) q ?k") (auto simp: search_def)
  obtain r docs' where sl: "score_loop (zip distances indices) (documents se) [] = (r, docs')"
    by (cases "score_loop (zip distances indices) (documents se) []")
  from assms False isr sl obtain refs where r: "r = Inr refs"
    and res: "results = map (\<lambda>j. docs' ! j) refs" and se': "se' = se\<lparr>documents := docs'\<rparr>"
    by (cases r) (auto simp: search_def)
  let ?tp = "take (nat ?k) (ranked (index se) q)"
  have d: "distinct (map snd ?tp)"
    using ranked_props(2) [of "index se" q] by (simp add: distinct_take take_map [symmetric] del: take_map)
  from sl r have sl': "score_loop (map (\<lambda>(distance, i). (distance, int i)) ?tp) (documents se) [] = (Inr refs, docs')"
    unfolding index_search_result [OF isr] score_loop_padding by simp
  from score_loop_writes [OF d sl'] have refs: "refs = map snd ?tp"
    and wr: "\<forall>(distance, i) \<in> set ?tp. i < length (documents se) \<and>
            docs' ! i = setitem ''score'' (PFloat (1 / (1 + distance))) (documents se ! i)"
    and fr: "\<forall>j. j \<notin> snd ` set ?tp \<longrightarrow> docs' ! j = documents se ! j"
    by simp_all
  have "length refs \<le> nat top_k" unfolding refs by simp
  moreover have "\<forall>j \<in> set refs. j < length (documents se) \<and>
              (\<exists>s. docs' ! j = setitem ''score'' (PFloat s) (documents se ! j))"
    unfolding refs using wr by fastforce
  moreover have "\<forall>j. j \<notin> set refs \<longrightarrow> docs' ! j = documents se ! j"
    unfolding refs using fr by simp
  ultimately show ?thesis using d res refs se' by (intro exI [of _ refs]) simp
qed

text \<open>
  Claim C7, as amended. \<open>search\<close> leaves the vector index, the identity index and the
  configured dimension unchanged, and the record list keeps its length and order. It is
  not read-only: the results are the stored records at pairwise different positions, and
  in each of them \<open>search\<close> has set the entry \<open>score\<close> (\<open>doc['score'] = ...\<close> on the stored
  dictionary); nothing else of a stored record changes, and the records that are not
  returned are unchanged.
\<close>

theorem search_frame:
  assumes "search se q top_k = (r, se')"
  shows "index se' = index se \<and> doc_ids_to_indices se' = doc_ids_to_indices se \<and>
         embedding_dim se' = embedding_dim se \<and>
         length (documents se') = length (documents se) \<and>
         map without_score (documents se') = map without_score (documents se) \<and>
         (\<forall>results. r = Inr results \<longrightarrow>
            (\<exists>refs. distinct refs \<and>
               results = map (\<lambda>j. documents se' ! j) refs \<and>
               (\<forall>j \<in> set refs. j < length (documents se) \<and>
                  (\<exists>s. documents se' ! j = setitem ''score'' (PFloat s) (documents se ! j))) \<and>
               (\<forall>j. j \<notin> set refs \<longrightarrow> documents se' ! j = documents se ! j)))"
proof -
  have frame: "index se' = index se \<and> doc_ids_to_indices se' = doc_ids_to_indices se \<and>
         embedding_dim se' = embedding_dim se \<and>
         length (documents se') = length (documents se) \<and>
         map without_score (documents se') = map without_score (documents se)"
  proof (cases "length (documents se) = 0")
    case True
    with assms show ?thesis by (simp add: search_def)
  next
    case False
    show ?thesis
    proof (cases "index_search (index se) q (min top_k (int (length (documents se))))")
      case (Inl e)
      with assms False show ?thesis by (simp add: search_def)
    next
      case (Inr res)
      obtain distances indices where res: "res = (distances, indices)" by (cases res)
      obtain r1 docs' where sl: "score_loop (zip distances indices) (documents se) [] = (r1, docs')"
        by (cases "score_loop (zip distances indices) (documents se) []")
      from assms False Inr res sl have "se' = se\<lparr>documents := docs'\<rparr>"
        by (cases r1) (auto simp: search_def)
      with score_loop_frame [OF sl] show ?thesis by simp
    qed
  qed
  have "\<exists>refs. distinct refs \<and>
               results = map (\<lambda>j. documents se' ! j) refs \<and>
               (\<forall>j \<in> set refs. j < length (documents se) \<and>
                  (\<exists>s. documents se' ! j = setitem ''score'' (PFloat s) (documents se ! j))) \<and>
               (\<forall>j. j \<notin> set refs \<longrightarrow> documents se' ! j = documents se ! j)"
    if "r = Inr results" for results
    using search_writes [OF assms [unfolded that]] by blast
  with frame show ?thesis by blast
qed

lemmas search_eval = search_def index_search_def l2_sqr_def list_index_def setitem_def Let_def

text \<open>
  Claim C7 as stated fails: a search over a store with one record adds the entry
  \<open>score\<close> to the stored record.
\<close>

theorem search_writes_score:
  "search
     \<lparr>embedding_dim = 1, index = \<lparr>dim = 1, xb = [[0]]\<rparr>,
      documents = [[(''text'', PStr ''t''), (''metadata'', PDict [(''doc_id'', PStr ''a''), (''chunk_id'', PInt 0)])]], doc_ids_to_indices = [(''a_0'', 0)]\<rparr> [0] 1
   = (Inr [[(''text'', PStr ''t''), (''metadata'', PDict [(''doc_id'', PStr ''a''), (''chunk_id'', PInt 0)]), (''score'', PFloat 1)]],
      \<lparr>embedding_dim = 1, index = \<lparr>dim = 1, xb = [[0]]\<rparr>,
       documents = [[(''text'', PStr ''t''), (''metadata'', PDict [(''doc_id'', PStr ''a''), (''chunk_id'', PInt 0)]), (''score'', PFloat 1)]],
       doc_ids_to_indices = [(''a_0'', 0)]\<rparr>)"
  by (simp add: search_eval)

theorem search_frame_witness:
  "search
     \<lparr>embedding_dim = 1, index = \<lparr>dim = 1, xb = [[0]]\<rparr>,
      documents = [[(''text'', PStr ''t''), (''metadata'', PDict [(''doc_id'', PStr ''a''), (''chunk_id'', PInt 0)])]],
      doc_ids_to_indices = [(''a_0'', 0)]\<rparr> [0] 1
   = (Inr [[(''text'', PStr ''t''), (''metadata'', PDict [(''doc_id'', PStr ''a''), (''chunk_id'', PInt 0)]),
            (''score'', PFloat 1)]],
      \<lparr>embedding_dim = 1, index = \<lparr>dim = 1, xb = [[0]]\<rparr>,
       documents = [[(''text'', PStr ''t''), (''metadata'', PDict [(''doc_id'', PStr ''a''), (''chunk_id'', PInt 0)]),
                     (''score'', PFloat 1)]],
       doc_ids_to_indices = [(''a_0'', 0)]\<rparr>) \<and>
   map without_score
     [[(''text'', PStr ''t''), (''metadata'', PDict [(''doc_id'', PStr ''a''), (''chunk_id'', PInt 0)]),
       (''score'', PFloat 1)]] =
   map without_score
     [[(''text'', PStr ''t''), (''metadata'', PDict [(''doc_id'', PStr ''a''), (''chunk_id'', PInt 0)])]] \<and>
   (\<exists>refs. distinct refs \<and>
      [[(''text'', PStr ''t''), (''metadata'', PDict [(''doc_id'', PStr ''a''), (''chunk_id'', PInt 0)]),
        (''score'', PFloat 1)]] =
      map (\<lambda>j. [[(''text'', PStr ''t''), (''metadata'', PDict [(''doc_id'', PStr ''a''), (''chunk_id'', PInt 0)]),
                  (''score'', PFloat 1)]] ! j) refs \<and>
      (\<forall>j \<in> set refs. \<exists>s.
         [[(''text'', PStr ''t''), (''metadata'', PDict [(''doc_id'', PStr ''a''), (''chunk_id'', PInt 0)]),
           (''score'', PFloat 1)]] ! j =
         setitem ''score'' (PFloat s)
           ([[(''text'', PStr ''t''), (''metadata'', PDict [(''doc_id'', PStr ''a''), (''chunk_id'', PInt 0)])]] ! j)))"
proof -
  let ?d = "[(''text'', PStr ''t''), (''metadata'', PDict [(''doc_id'', PStr ''a''), (''chunk_id'', PInt 0)])]"
  let ?d' = "[(''text'', PStr ''t''), (''metadata'', PDict [(''doc_id'', PStr ''a''), (''chunk_id'', PInt 0)]),
       (''score'', PFloat 1)]"
  let ?s = "\<lparr>embedding_dim = 1, index = \<lparr>dim = 1, xb = [[0]]\<rparr>,
      documents = [?d], doc_ids_to_indices = [(''a_0'', 0)]\<rparr>"
  let ?s' = "\<lparr>embedding_dim = 1, index = \<lparr>dim = 1, xb = [[0]]\<rparr>,
       documents = [?d'], doc_ids_to_indices = [(''a_0'', 0)]\<rparr>"
  have run: "search ?s [0] 1 = (Inr [?d'], ?s')"
    by (simp add: search_eval)
  note f = search_frame [OF run]
  note f5 = f [THEN conjunct2, THEN conjunct2, THEN conjunct2, THEN conjunct2, THEN conjunct1]
  note f6 = f [THEN conjunct2, THEN conjunct2, THEN conjunct2, THEN conjunct2, THEN conjunct2,
      rule_format, OF refl]
  from f5 have a: "map without_score [?d'] = map without_score [?d]" by simp
  from f6 obtain refs where r: "distinct refs" "[?d'] = map (\<lambda>j. documents ?s' ! j) refs"
    "\<forall>j \<in> set refs. j < length (documents ?s) \<and>
        (\<exists>s. documents ?s' ! j = setitem ''score'' (PFloat s) (documents ?s ! j))"
    by (elim exE conjE)
  have b: "\<exists>refs. distinct refs \<and> [?d'] = map (\<lambda>j. [?d'] ! j) refs \<and>
      (\<forall>j \<in> set refs. \<exists>s. [?d'] ! j = setitem ''score'' (PFloat s) ([?d] ! j))"
  proof (intro exI [of _ refs] conjI)
    show "distinct refs" by (rule r(1))
    show "[?d'] = map (\<lambda>j. [?d'] ! j) refs" using r(2) by simp
    show "\<forall>j \<in> set refs. \<exists>s. [?d'] ! j = setitem ''score'' (PFloat s) ([?d] ! j)"
      using r(3) by simp
  qed
  show ?thesis using run a b by (intro conjI)
qed

text \<open>
  The number of results: at most \<open>top_k\<close> and at most the number of records, whatever the
  distances are.
\<close>

lemma search_result_count:
  assumes "search se q top_k = (Inr results, se')"
  shows "length results \<le> min (nat top_k) (length (documents se))"
proof -
  from search_writes [OF assms] obtain refs where r: "distinct refs" "length refs \<le> nat top_k"
    "results = map (\<lambda>j. documents se' ! j) refs"
    "\<forall>j \<in> set refs. j < length (documents se)"
    by blast
  from r(4) have "set refs \<subseteq> {..< length (documents se)}" by auto
  then have "card (set refs) \<le> card {..< length (documents se)}" by (intro card_mono) simp_all
  with distinct_card [OF r(1)] have "length refs \<le> length (documents se)" by simp
  with r(2,3) show ?thesis by simp
qed

section \<open>The store: saving and loading\<close>

lemma search_depends:
  "index a = index b \<Longrightarrow> documents a = documents b \<Longrightarrow> fst (search a q k) = fst (search b q k)"
  by (auto simp: search_def split: sum.splits prod.splits)

lemma dirname_Nil: "dirname [] = []"
  by (simp add: dirname_def)

text \<open>
  Claim C5. After \<open>save_index\<close> has returned, with two different paths, \<open>load_index\<close>
  into any store and the constructor of a fresh store (of any configured dimension) both
  give the saved vector index, record list and identity index, and \<open>search\<close> over the
  loaded store returns what it returns over the saved one, for every query and \<open>top_k\<close>.
\<close>

theorem save_then_load:
  assumes save: "save_index se index_path docs_path fs = (None, fs')"
    and paths: "index_path \<noteq> docs_path"
  shows "load_index other index_path docs_path fs' =
           (None, other\<lparr>index := index se, documents := documents se,
                        doc_ids_to_indices := doc_ids_to_indices se\<rparr>) \<and>
         SearchEngine n (Some index_path) (Some docs_path) fs' =
           Inr \<lparr>embedding_dim = n, index = index se, documents = documents se,
                doc_ids_to_indices = doc_ids_to_indices se\<rparr> \<and>
         fst (search (snd (load_index other index_path docs_path fs')) q k) = fst (search se q k)"
proof -
  from save have d: "dirname index_path \<noteq> []" "dirname docs_path \<noteq> []"
    and fs': "fs' = (fs(index_path := Some (FaissFile (index se))))
                  (docs_path := Some (PickleFile (documents se) (doc_ids_to_indices se)))"
    by (auto simp: save_index_def Let_def split: if_splits)
  from d dirname_Nil have ne: "index_path \<noteq> []" "docs_path \<noteq> []" by auto
  have load: "load_index x index_path docs_path fs' =
           (None, x\<lparr>index := index se, documents := documents se,
                    doc_ids_to_indices := doc_ids_to_indices se\<rparr>)" for x
    using paths by (simp add: load_index_def fs')
  have l0: "load_index \<lparr>embedding_dim = n, index = IndexFlatL2 n, documents = [],
                doc_ids_to_indices = []\<rparr> index_path docs_path fs' =
           (None, \<lparr>embedding_dim = n, index = index se, documents = documents se,
                doc_ids_to_indices = doc_ids_to_indices se\<rparr>)"
    by (simp add: load)
  have ex: "fs' index_path \<noteq> None" "fs' docs_path \<noteq> None" by (simp_all add: fs')
  have new: "SearchEngine n (Some index_path) (Some docs_path) fs' =
           Inr \<lparr>embedding_dim = n, index = index se, documents = documents se,
                doc_ids_to_indices = doc_ids_to_indices se\<rparr>"
    using ne ex by (simp add: SearchEngine_def l0)
  have "fst (search (snd (load_index other index_path docs_path fs')) q k) = fst (search se q k)"
    by (rule search_depends) (simp_all add: load)
  with load new show ?thesis by simp
qed

theorem save_then_load_witness:
  "save_index
     \<lparr>embedding_dim = 1, index = \<lparr>dim = 1, xb = [[0]]\<rparr>,
      documents = [[(''text'', PStr ''t'')]], doc_ids_to_indices = [(''a_0'', 0)]\<rparr>
     ''/d/i.bin'' ''/d/docs.pkl'' (\<lambda>path. None)
   = (None, (\<lambda>path. None)
        (''/d/i.bin'' := Some (FaissFile \<lparr>dim = 1, xb = [[0]]\<rparr>),
         ''/d/docs.pkl'' := Some (PickleFile [[(''text'', PStr ''t'')]] [(''a_0'', 0)]))) \<and>
   SearchEngine 7 (Some ''/d/i.bin'') (Some ''/d/docs.pkl'')
     ((\<lambda>path. None)
        (''/d/i.bin'' := Some (FaissFile \<lparr>dim = 1, xb = [[0]]\<rparr>),
         ''/d/docs.pkl'' := Some (PickleFile [[(''text'', PStr ''t'')]] [(''a_0'', 0)])))
   = Inr \<lparr>embedding_dim = 7, index = \<lparr>dim = 1, xb = [[0]]\<rparr>,
          documents = [[(''text'', PStr ''t'')]], doc_ids_to_indices = [(''a_0'', 0)]\<rparr>"
proof -
  let ?s = "\<lparr>embedding_dim = 1, index = \<lparr>dim = 1, xb = [[0]]\<rparr>,
      documents = [[(''text'', PStr ''t'')]], doc_ids_to_indices = [(''a_0'', 0)]\<rparr>"
  let ?fs' = "(\<lambda>path. None)
        (''/d/i.bin'' := Some (FaissFile \<lparr>dim = 1, xb = [[0]]\<rparr>),
         ''/d/docs.pkl'' := Some (PickleFile [[(''text'', PStr ''t'')]] [(''a_0'', 0)]))"
  have save: "save_index ?s ''/d/i.bin'' ''/d/docs.pkl'' (\<lambda>path. None) = (None, ?fs')"
    by (simp add: save_index_def dirname_def Let_def)
  have paths: "''/d/i.bin'' \<noteq> ''/d/docs.pkl''" by simp
  from save_then_load [OF save paths, of ?s 7] save show ?thesis by simp
qed

text \<open>
  The two artifacts need two paths: saved under one path, the records blob replaces the
  index blob and \<open>load_index\<close> fails.
\<close>

lemma save_same_path:
  "load_index se ''/d/x'' ''/d/x'' (snd (save_index se ''/d/x'' ''/d/x'' fs)) = (Some RuntimeError, se)"
  by (simp add: save_index_def load_index_def dirname_def Let_def)

end
